theory Spec2Isabelle
  imports Main
begin

section \<open>Strings and characters\<close>

text \<open>
  A JavaScript string is modelled as a \<^typ>\<open>string\<close>; a \<^typ>\<open>char\<close> stands for one
  UTF-16 code unit below 256 (the Latin-1 range), which covers every character the
  patterns and path functions of \<^verbatim>\<open>lib/dependencies.js\<close> name explicitly.
\<close>

definition dquote :: char where
  "dquote = CHR 0x22"

definition squote :: char where
  "squote = CHR 0x27"

definition slash :: char where
  "slash = CHR ''/''"

text \<open>The class \<^verbatim>\<open>\w\<close> of JavaScript patterns: \<^verbatim>\<open>[A-Za-z0-9_]\<close>.\<close>

definition wordChars :: string where
  "wordChars = ''abcdefghijklmnopqrstuvwxyzABCDEFGHIJKLMNOPQRSTUVWXYZ0123456789_''"

text \<open>The class \<^verbatim>\<open>\s\<close>, restricted to code units below 256: tab, line feed, vertical
  tab, form feed, carriage return, space and the no-break space.\<close>

definition spaceChars :: string where
  "spaceChars = [CHR 0x09, CHR 0x0A, CHR 0x0B, CHR 0x0C, CHR 0x0D, CHR 0x20, CHR 0xA0]"

section \<open>Node's \<^verbatim>\<open>path\<close> module (POSIX)\<close>

text \<open>\<^verbatim>\<open>String.prototype.split\<close> on one separator character: never the empty list.\<close>

fun splitOn :: "char \<Rightarrow> string \<Rightarrow> string list" where
  "splitOn c [] = [[]]"
| "splitOn c (x # xs) =
     (if x = c then [] # splitOn c xs
      else (case splitOn c xs of [] \<Rightarrow> [[x]] | y # ys \<Rightarrow> (x # y) # ys))"

fun joinWith :: "char \<Rightarrow> string list \<Rightarrow> string" where
  "joinWith c [] = []"
| "joinWith c [x] = x"
| "joinWith c (x # y # ys) = x @ c # joinWith c (y # ys)"

text \<open>
  One segment of \<^verbatim>\<open>normalizeString\<close>: empty segments and \<^verbatim>\<open>.\<close> are dropped,
  \<^verbatim>\<open>..\<close> removes the last kept segment unless that is itself \<^verbatim>\<open>..\<close> or there is
  none, in which case it is kept only when \<open>allowAboveRoot\<close> holds.
\<close>

definition normStep :: "bool \<Rightarrow> string list \<Rightarrow> string \<Rightarrow> string list" where
  "normStep allowAboveRoot res seg =
     (if seg = [] \<or> seg = ''.'' then res
      else if seg = ''..'' then
        (if res \<noteq> [] \<and> last res \<noteq> ''..'' then butlast res
         else if allowAboveRoot then res @ [''..''] else res)
      else res @ [seg])"

definition normalizeString :: "string \<Rightarrow> bool \<Rightarrow> string" where
  "normalizeString p allowAboveRoot =
     joinWith slash (foldl (normStep allowAboveRoot) [] (splitOn slash p))"

definition isAbsolute :: "string \<Rightarrow> bool" where
  "isAbsolute p = (case p of [] \<Rightarrow> False | c # _ \<Rightarrow> c = slash)"

text \<open>
  \<^verbatim>\<open>path.resolve\<close>: the arguments are taken from the last to the first, then the
  working directory, until an absolute one has been prepended; empty arguments are
  skipped. The list given to \<open>resolveAcc\<close> is in that order of use.
\<close>

fun resolveAcc :: "string list \<Rightarrow> string \<Rightarrow> string \<times> bool" where
  "resolveAcc [] acc = (acc, False)"
| "resolveAcc (p # ps) acc =
     (if p = [] then resolveAcc ps acc
      else if isAbsolute p then (p @ slash # acc, True)
      else resolveAcc ps (p @ slash # acc))"

definition pathResolve :: "string \<Rightarrow> string \<Rightarrow> string \<Rightarrow> string" where
  "pathResolve workdir directory dep =
     (case resolveAcc [dep, directory, workdir] [] of
        (resolvedPath, resolvedAbsolute) \<Rightarrow>
          (let n = normalizeString resolvedPath (\<not> resolvedAbsolute)
           in if resolvedAbsolute then slash # n
              else if n \<noteq> [] then n else ''.''))"

definition normalize :: "string \<Rightarrow> string" where
  "normalize p =
     (if p = [] then ''.''
      else
        (let isAbs = isAbsolute p;
             trailingSeparator = (last p = slash);
             n = normalizeString p (\<not> isAbs)
         in if n = [] then (if isAbs then ''/'' else if trailingSeparator then ''./'' else ''.'')
            else (let n' = (if trailingSeparator then n @ ''/'' else n)
                  in if isAbs then slash # n' else n')))"

text \<open>\<^verbatim>\<open>path.join\<close> of two arguments: the non-empty ones joined by a separator, normalized.\<close>

definition pathJoin :: "string \<Rightarrow> string \<Rightarrow> string" where
  "pathJoin a b =
     (if a = [] \<and> b = [] then ''.''
      else if a = [] then normalize b
      else if b = [] then normalize a
      else normalize (a @ slash # b))"

text \<open>
  \<^verbatim>\<open>path.dirname\<close>: everything before the last separator that is followed by a
  non-separator, looking no further left than index 1.
\<close>

fun dirnameEnd :: "string \<Rightarrow> nat \<Rightarrow> bool \<Rightarrow> nat option" where
  "dirnameEnd p 0 matchedSlash = None"
| "dirnameEnd p (Suc i) matchedSlash =
     (if p ! Suc i = slash then
        (if \<not> matchedSlash then Some (Suc i) else dirnameEnd p i matchedSlash)
      else dirnameEnd p i False)"

definition dirname :: "string \<Rightarrow> string" where
  "dirname p =
     (if p = [] then ''.''
      else (case dirnameEnd p (length p - 1) True of
              None \<Rightarrow> (if isAbsolute p then ''/'' else ''.'')
            | Some e \<Rightarrow> (if isAbsolute p \<and> e = 1 then ''//'' else take e p)))"

text \<open>
  \<^verbatim>\<open>path.extname\<close>: the part of the last path segment (trailing separators
  ignored) from its last dot on; empty when there is no dot, when the dot opens the
  segment, and for the segment \<^verbatim>\<open>..\<close>.
\<close>

definition lastSegment :: "string \<Rightarrow> string" where
  "lastSegment p =
     rev (takeWhile (\<lambda>c. c \<noteq> slash) (dropWhile (\<lambda>c. c = slash) (rev p)))"

definition extname :: "string \<Rightarrow> string" where
  "extname p =
     (let b = lastSegment p;
          afterDot = rev (takeWhile (\<lambda>c. c \<noteq> CHR ''.'') (rev b))
      in if CHR ''.'' \<notin> set b then []
         else if length afterDot + 1 = length b then []
         else if b = ''..'' then []
         else CHR ''.'' # afterDot)"

section \<open>The file system\<close>

text \<open>
  The file system as the program sees it through path strings: what a path names after
  the operating system has followed symbolic links. A regular file carries its
  modification time in milliseconds and its content (\<open>None\<close> when it cannot be read).
\<close>

datatype node = RegularFile (mtimeMs: int) (contents: "string option") | Directory (mtimeMs: int)

record env =
  files :: "string \<Rightarrow> node option"
  workdir :: string

datatype error = ENOENT string | ENOTDIR string | EISDIR string | EACCES string

text \<open>The empty path names nothing.\<close>

definition lookupNode :: "env \<Rightarrow> string \<Rightarrow> node option" where
  "lookupNode e p = (if p = [] then None else files e p)"

definition existsSync :: "env \<Rightarrow> string \<Rightarrow> bool" where
  "existsSync e p = (lookupNode e p \<noteq> None)"

fun isFile :: "node \<Rightarrow> bool" where
  "isFile (RegularFile _ _) = True"
| "isFile (Directory _) = False"

text \<open>
  The paths of the directories that a path passes through: its prefixes that end before
  a separator, the root apart.
\<close>

definition ancestors :: "string \<Rightarrow> string list" where
  "ancestors p = map (\<lambda>k. take k p) (filter (\<lambda>k. p ! k = slash) [1 ..< length p])"

text \<open>
  The error of a system call on a path that names nothing: \<^verbatim>\<open>ENOTDIR\<close> when the path
  passes through a regular file, \<^verbatim>\<open>ENOENT\<close> otherwise.
\<close>

definition missingError :: "env \<Rightarrow> string \<Rightarrow> error" where
  "missingError e p =
     (if \<exists>a \<in> set (ancestors p).
           (case lookupNode e a of None \<Rightarrow> False | Some nd \<Rightarrow> isFile nd)
      then ENOTDIR p else ENOENT p)"

definition statSync :: "env \<Rightarrow> string \<Rightarrow> error + node" where
  "statSync e p =
     (case lookupNode e p of None \<Rightarrow> Inl (missingError e p) | Some nd \<Rightarrow> Inr nd)"

definition readFileSync :: "env \<Rightarrow> string \<Rightarrow> error + string" where
  "readFileSync e p =
     (case lookupNode e p of
        None \<Rightarrow> Inl (missingError e p)
      | Some (Directory _) \<Rightarrow> Inl (EISDIR p)
      | Some (RegularFile _ None) \<Rightarrow> Inl (EACCES p)
      | Some (RegularFile _ (Some c)) \<Rightarrow> Inr c)"

text \<open>The test \<^verbatim>\<open>fs.existsSync( p ) && fs.statSync( p ).isFile()\<close>.\<close>

definition existsAsFile :: "env \<Rightarrow> string \<Rightarrow> bool" where
  "existsAsFile e p =
     (existsSync e p \<and> (case statSync e p of Inl _ \<Rightarrow> False | Inr nd \<Rightarrow> isFile nd))"

section \<open>The path resolver\<close>

text \<open>The loop over the resolvers of \<^verbatim>\<open>resolveDependencyReference\<close>.\<close>

fun tryResolvers :: "env \<Rightarrow> string \<Rightarrow> (string \<Rightarrow> string) list \<Rightarrow> string option" where
  "tryResolvers e input [] = None"
| "tryResolvers e input (resolver # rest) =
     (let resolvedPath = resolver input
      in if existsAsFile e resolvedPath then Some resolvedPath
         else tryResolvers e input rest)"

text \<open>\<open>None\<close> is the source's \<^verbatim>\<open>false\<close>.\<close>

definition resolveDependencyReference :: "env \<Rightarrow> string \<Rightarrow> (string \<Rightarrow> string) list \<Rightarrow> string option" where
  "resolveDependencyReference e input resolvers =
     (if existsAsFile e input then Some input else tryResolvers e input resolvers)"

section \<open>Patterns\<close>

text \<open>
  The fragment of JavaScript regular expressions that the patterns of
  \<^verbatim>\<open>lib/dependencies.js\<close> are written in, all with the flag \<^verbatim>\<open>g\<close> and no other:
  \<open>Bol\<close> is \<^verbatim>\<open>^\<close> (start of input only, there is no flag \<^verbatim>\<open>m\<close>), \<open>OneOf\<close> and
  \<open>NoneOf\<close> are character classes, \<open>Star\<close> is the greedy \<^verbatim>\<open>*\<close>, \<open>LazyStar\<close> is
  \<^verbatim>\<open>*?\<close> and \<open>Grp n\<close> is the capture group with number \<open>n\<close>. No group of these
  patterns stands under a quantifier.
\<close>

datatype regex =
    Eps
  | Bol
  | Lit string
  | OneOf string
  | NoneOf string
  | Seq regex regex
  | Alt regex regex
  | Star regex
  | LazyStar regex
  | Grp nat regex

type_synonym captures = "nat \<Rightarrow> string option"

definition Any :: regex where
  "Any = NoneOf []"

definition Space :: regex where
  "Space = OneOf spaceChars"

definition Plus :: "regex \<Rightarrow> regex" where
  "Plus r = Seq r (Star r)"

definition Opt :: "regex \<Rightarrow> regex" where
  "Opt r = Alt r Eps"

fun seqs :: "regex list \<Rightarrow> regex" where
  "seqs [] = Eps"
| "seqs [r] = r"
| "seqs (r # r' # rs) = Seq r (seqs (r' # rs))"

text \<open>
  The backtracking matcher. \<open>rmatch r atStart s c\<close> lists every way \<open>r\<close> matches a
  prefix of \<open>s\<close>, as the rest of the input and the captures, in the order in which
  backtracking tries them: the engine takes the first one. \<open>atStart\<close> says that \<open>s\<close>
  is the whole input. An iteration of a star that consumes nothing is not taken.
\<close>

function rmatch :: "regex \<Rightarrow> bool \<Rightarrow> string \<Rightarrow> captures \<Rightarrow> (string \<times> captures) list" where
  "rmatch Eps b s c = [(s, c)]"
| "rmatch Bol b s c = (if b then [(s, c)] else [])"
| "rmatch (Lit l) b s c = (if take (length l) s = l then [(drop (length l) s, c)] else [])"
| "rmatch (OneOf cs) b s c =
     (case s of [] \<Rightarrow> [] | x # xs \<Rightarrow> if x \<in> set cs then [(xs, c)] else [])"
| "rmatch (NoneOf cs) b s c =
     (case s of [] \<Rightarrow> [] | x # xs \<Rightarrow> if x \<notin> set cs then [(xs, c)] else [])"
| "rmatch (Seq r1 r2) b s c =
     concat (map (\<lambda>m. rmatch r2 (b \<and> length (fst m) = length s) (fst m) (snd m))
                 (rmatch r1 b s c))"
| "rmatch (Alt r1 r2) b s c = rmatch r1 b s c @ rmatch r2 b s c"
| "rmatch (Star r) b s c =
     concat (map (\<lambda>m. if length (fst m) < length s
                       then rmatch (Star r) False (fst m) (snd m) else [])
                 (rmatch r b s c))
     @ [(s, c)]"
| "rmatch (LazyStar r) b s c =
     (s, c) #
     concat (map (\<lambda>m. if length (fst m) < length s
                       then rmatch (LazyStar r) False (fst m) (snd m) else [])
                 (rmatch r b s c))"
| "rmatch (Grp n r) b s c =
     map (\<lambda>m. (fst m, (snd m)(n \<mapsto> take (length s - length (fst m)) s)))
         (rmatch r b s c)"
  by pat_completeness auto
termination
  by (relation "inv_image (less_than <*lex*> less_than) (\<lambda>(r, b, s, c). (size r, length s))")
     auto

text \<open>The number of capture groups: \<^verbatim>\<open>match.length - 1\<close>.\<close>

fun groupCount :: "regex \<Rightarrow> nat" where
  "groupCount (Seq r1 r2) = groupCount r1 + groupCount r2"
| "groupCount (Alt r1 r2) = groupCount r1 + groupCount r2"
| "groupCount (Star r) = groupCount r"
| "groupCount (LazyStar r) = groupCount r"
| "groupCount (Grp n r) = Suc (groupCount r)"
| "groupCount _ = 0"

text \<open>
  One call of \<^verbatim>\<open>exec\<close> on a pattern with the flag \<^verbatim>\<open>g\<close>: \<open>s\<close> is the input from
  \<^verbatim>\<open>lastIndex\<close> on; the start positions are tried from left to right, and the result
  is the input after the first match found, with its captures.
\<close>

fun exec :: "regex \<Rightarrow> bool \<Rightarrow> string \<Rightarrow> (string \<times> captures) option" where
  "exec r b [] = (case rmatch r b [] Map.empty of [] \<Rightarrow> None | m # _ \<Rightarrow> Some m)"
| "exec r b (x # xs) =
     (case rmatch r b (x # xs) Map.empty of [] \<Rightarrow> exec r False xs | m # _ \<Rightarrow> Some m)"

text \<open>The inner loop over \<^verbatim>\<open>match[ i ]\<close>: the groups that captured a non-empty string.\<close>

definition matchGroups :: "regex \<Rightarrow> captures \<Rightarrow> string list" where
  "matchGroups r c =
     concat (map (\<lambda>i. case c i of None \<Rightarrow> [] | Some g \<Rightarrow> if g \<noteq> [] then [g] else [])
                 [1 ..< Suc (groupCount r)])"

text \<open>
  The \<^verbatim>\<open>do ... while ( match )\<close> loop on one input. A match that consumes nothing
  leaves \<^verbatim>\<open>lastIndex\<close> where it is, so the same match is found again for ever: the
  loop has no result then (\<open>None\<close>).
\<close>

function execLoop :: "regex \<Rightarrow> bool \<Rightarrow> string \<Rightarrow> string list option" where
  "execLoop r b s =
     (case exec r b s of
        None \<Rightarrow> Some []
      | Some m \<Rightarrow>
          if length (fst m) < length s
          then map_option (\<lambda>found. matchGroups r (snd m) @ found) (execLoop r False (fst m))
          else None)"
  by pat_completeness auto
termination
  by (relation "measure (\<lambda>(r, b, s). length s)") auto

section \<open>The reference extractor\<close>

text \<open>
  A parser is a function or a pattern. A function's result is kept when it is truthy:
  \<open>None\<close> stands for a falsy value that is not a string.
\<close>

datatype parser = FunctionParser "string \<Rightarrow> string option" | RegExpParser regex

fun regexInputs :: "regex \<Rightarrow> string list \<Rightarrow> string list option" where
  "regexInputs r [] = Some []"
| "regexInputs r (input # inputs) =
     (case execLoop r True input of
        None \<Rightarrow> None
      | Some found \<Rightarrow> map_option (\<lambda>others. found @ others) (regexInputs r inputs))"

fun findDependencyReferences :: "string list \<Rightarrow> parser \<Rightarrow> string list option" where
  "findDependencyReferences inputs (FunctionParser f) =
     Some (concat (map (\<lambda>input. case f input of
                                  None \<Rightarrow> []
                                | Some match \<Rightarrow> if match \<noteq> [] then [match] else [])
                       inputs))"
| "findDependencyReferences inputs (RegExpParser r) = regexInputs r inputs"

section \<open>The search configuration\<close>

record languageConfig =
  parsers :: "parser list"
  resolvers :: "(string \<Rightarrow> string) list"

type_synonym searchConfig = "string \<Rightarrow> languageConfig option"

text \<open>The literal \<^verbatim>\<open>"(?:\.[^"]+)"|'(?:\.[^']+)'\<close> of the first script pattern.\<close>

definition quotedRelative :: regex where
  "quotedRelative =
     Alt (seqs [Lit [dquote], Lit ''.'', Plus (NoneOf [dquote]), Lit [dquote]])
         (seqs [Lit [squote], Lit ''.'', Plus (NoneOf [squote]), Lit [squote]])"

text \<open>The literal \<^verbatim>\<open>"(?:[^"]+)"|'(?:[^']+)'\<close> of the first stylesheet pattern.\<close>

definition quotedLiteral :: regex where
  "quotedLiteral =
     Alt (seqs [Lit [dquote], Plus (NoneOf [dquote]), Lit [dquote]])
         (seqs [Lit [squote], Plus (NoneOf [squote]), Lit [squote]])"

definition lineStart :: regex where
  "lineStart = Alt Bol (OneOf [CHR 0x0D, CHR 0x0A])"

definition notAfterSlash :: regex where
  "notAfterSlash = Alt Bol (NoneOf ''/'')"

definition jsImportPattern :: regex where
  "jsImportPattern =
     seqs [lineStart, Alt (Lit ''import'') (Lit ''export''), Plus Space, LazyStar Any,
           Grp 1 quotedRelative, Lit '';'']"

definition jsUnquotePattern :: regex where
  "jsUnquotePattern =
     Alt (seqs [Lit [dquote], Grp 1 (Plus (NoneOf [dquote])), Lit [dquote]])
         (seqs [Lit [squote], Grp 2 (Plus (NoneOf [squote])), Lit [squote]])"

definition jsSearchConfig :: languageConfig where
  "jsSearchConfig =
     \<lparr> parsers = [RegExpParser jsImportPattern, RegExpParser jsUnquotePattern],
       resolvers = [\<lambda>filename. filename @ ''.js'', \<lambda>filename. filename @ ''.mjs''] \<rparr>"

definition scssImportPattern :: regex where
  "scssImportPattern =
     Alt (seqs [lineStart, Lit ''@'', Alt (Lit ''use'') (Lit ''forward''), Plus Space,
                Grp 1 quotedLiteral])
    (Alt (seqs [notAfterSlash, Lit ''@import'', Plus Space, Grp 2 quotedLiteral, Lit '';''])
         (seqs [notAfterSlash, Lit ''@include'', Plus Space, Opt (Lit ''meta.''),
                Lit ''load-css('', Star Space, Grp 3 quotedLiteral, Star Space, Lit '')'']))"

definition scssUnquotePattern :: regex where
  "scssUnquotePattern =
     Alt (seqs [Lit [dquote], Grp 1 (Plus (NoneOf [dquote])), Lit [dquote]])
    (Alt (seqs [Lit [squote], Grp 2 (Plus (NoneOf [squote])), Lit [squote]])
         (seqs [Lit ''url('',
                Alt (seqs [Lit [dquote], Grp 3 (Plus (NoneOf [dquote])), Lit [dquote]])
               (Alt (seqs [Lit [squote], Grp 4 (Plus (NoneOf [squote])), Lit [squote]])
                    (Grp 5 (Plus (NoneOf '')'')))),
                Lit '')'']))"

text \<open>
  \<^verbatim>\<open>filename.replace( /([\w\-]+)$/, '_$1.scss' )\<close>: the longest run of word characters
  and hyphens that ends the name is given a leading underscore and the extension; a
  name that ends in no such character is left as it is.
\<close>

definition sassPartial :: "string \<Rightarrow> string" where
  "sassPartial filename =
     (let run = rev (takeWhile (\<lambda>c. c \<in> set wordChars \<or> c = CHR ''-'') (rev filename))
      in if run = [] then filename
         else take (length filename - length run) filename @ ''_'' @ run @ ''.scss'')"

definition scssSearchConfig :: languageConfig where
  "scssSearchConfig =
     \<lparr> parsers = [RegExpParser scssImportPattern, RegExpParser scssUnquotePattern],
       resolvers = [\<lambda>filename. filename @ ''.scss'', sassPartial,
                    \<lambda>filename. pathJoin filename ''_index.scss''] \<rparr>"

definition defaultSearchConfig :: searchConfig where
  "defaultSearchConfig ext =
     (if ext = ''.js'' then Some jsSearchConfig
      else if ext = ''.mjs'' then Some jsSearchConfig
      else if ext = ''.scss'' then Some scssSearchConfig
      else None)"

text \<open>\<^verbatim>\<open>searchConfig[ ext ] || {}\<close> with the defaults of the destructuring.\<close>

definition configFor :: "searchConfig \<Rightarrow> string \<Rightarrow> languageConfig" where
  "configFor searchConfig ext =
     (case searchConfig ext of None \<Rightarrow> \<lparr> parsers = [], resolvers = [] \<rparr> | Some lc \<Rightarrow> lc)"

section \<open>The caches\<close>

text \<open>
  The two module-level tables, and a log of the calls of \<^verbatim>\<open>readFileSync\<close> (the log
  is not in the source: it makes the reads observable). The state belongs to the
  module, not to a resolver: every \<open>getDependencies\<close> takes and returns it, whatever
  its search configuration.
\<close>

record state =
  dependencyCache :: "string \<Rightarrow> string list option"
  resolverCache :: "string \<Rightarrow> string option"
  reads :: "string list"

definition emptyState :: state where
  "emptyState = \<lparr> dependencyCache = Map.empty, resolverCache = Map.empty, reads = [] \<rparr>"

text \<open>The decimal digits of a number, as the template literal prints \<^verbatim>\<open>stats.mtimeMs\<close>.\<close>

fun showNat :: "nat \<Rightarrow> string" where
  "showNat n =
     (if n < 10 then [''0123456789'' ! n]
      else showNat (n div 10) @ [''0123456789'' ! (n mod 10)])"

declare showNat.simps [simp del]

definition showInt :: "int \<Rightarrow> string" where
  "showInt i = (if i < 0 then CHR ''-'' # showNat (nat (- i)) else showNat (nat i))"

definition cacheKey :: "string \<Rightarrow> node \<Rightarrow> string" where
  "cacheKey filename stats = filename @ ''@'' @ showInt (mtimeMs stats)"

section \<open>The graph walker\<close>

datatype outcome = Returns "string list" state | Throws error state | Diverges

text \<open>\<^verbatim>\<open>Set.prototype.add\<close>: a set keeps its members in the order of insertion.\<close>

definition setAdd :: "string \<Rightarrow> string list \<Rightarrow> string list" where
  "setAdd x xs = (if x \<in> set xs then xs else xs @ [x])"

definition addAll :: "string list \<Rightarrow> string list \<Rightarrow> string list" where
  "addAll children results = foldl (\<lambda>acc childDep. setAdd childDep acc) results children"

text \<open>The loop that runs the parsers, each on the results of the one before.\<close>

fun runParsers :: "parser list \<Rightarrow> string list \<Rightarrow> string list option" where
  "runParsers [] dependencies = Some dependencies"
| "runParsers (p # ps) dependencies =
     (case findDependencyReferences dependencies p of
        None \<Rightarrow> None
      | Some found \<Rightarrow> runParsers ps found)"

text \<open>A cached resolution counts when it is truthy.\<close>

definition cachedResolution :: "state \<Rightarrow> string \<Rightarrow> string option" where
  "cachedResolution st depPath =
     (case resolverCache st depPath of
        None \<Rightarrow> None
      | Some d \<Rightarrow> if d \<noteq> [] then Some d else None)"

text \<open>
  The body of the loop over the references up to the recursive call: the dependency
  and the state after it, or \<open>None\<close> where the source says \<^verbatim>\<open>continue\<close>.
\<close>

definition lookupOrResolve ::
  "env \<Rightarrow> (string \<Rightarrow> string) list \<Rightarrow> state \<Rightarrow> string \<Rightarrow> (string \<times> state) option" where
  "lookupOrResolve e rs st depPath =
     (case cachedResolution st depPath of
        Some d \<Rightarrow> Some (d, st)
      | None \<Rightarrow>
          (case resolveDependencyReference e depPath rs of
             None \<Rightarrow> None
           | Some d \<Rightarrow>
               if d = [] then None
               else Some (d, st\<lparr>resolverCache := (resolverCache st)(depPath \<mapsto> d)\<rparr>)))"

text \<open>
  The first half of \<open>getDependencies\<close>: the references of a file, from the cache
  under the key of its path and modification time, or read and extracted, and cached.
\<close>

datatype loaded = Loaded "string list" state | LoadThrows error state | LoadDiverges

definition loadDependencies :: "languageConfig \<Rightarrow> env \<Rightarrow> state \<Rightarrow> string \<Rightarrow> loaded" where
  "loadDependencies lc e st filename =
     (case statSync e filename of
        Inl err \<Rightarrow> LoadThrows err st
      | Inr stats \<Rightarrow>
          (case dependencyCache st (cacheKey filename stats) of
             Some dependencies \<Rightarrow> Loaded dependencies st
           | None \<Rightarrow>
               (case readFileSync e filename of
                  Inl err \<Rightarrow> LoadThrows err st
                | Inr content \<Rightarrow>
                    (case runParsers (parsers lc) [content] of
                       None \<Rightarrow> LoadDiverges
                     | Some dependencies \<Rightarrow>
                         Loaded dependencies
                           (st\<lparr>dependencyCache :=
                                 (dependencyCache st)(cacheKey filename stats \<mapsto> dependencies),
                               reads := reads st @ [filename]\<rparr>)))))"

text \<open>
  \<open>getDependencies\<close> and its loop over the references, \<open>walk\<close>. The first argument
  bounds the depth of the recursion: \<open>Diverges\<close> at depth 0 says that the call stack
  needed is deeper. \<open>Diverges\<close> is also the outcome when a pattern loop never ends.
\<close>

function getDependencies :: "nat \<Rightarrow> searchConfig \<Rightarrow> env \<Rightarrow> state \<Rightarrow> string \<Rightarrow> outcome"
  and walk :: "nat \<Rightarrow> searchConfig \<Rightarrow> env \<Rightarrow> string \<Rightarrow> (string \<Rightarrow> string) list
                 \<Rightarrow> string list \<Rightarrow> string list \<Rightarrow> state \<Rightarrow> outcome" where
  "getDependencies 0 searchConfig e st filename = Diverges"
| "getDependencies (Suc n) searchConfig e st filename =
     (case loadDependencies (configFor searchConfig (extname filename)) e st filename of
        LoadThrows err st1 \<Rightarrow> Throws err st1
      | LoadDiverges \<Rightarrow> Diverges
      | Loaded dependencies st1 \<Rightarrow>
          walk n searchConfig e (dirname filename)
            (resolvers (configFor searchConfig (extname filename))) dependencies [] st1)"
| "walk n searchConfig e directory rs [] results st = Returns results st"
| "walk n searchConfig e directory rs (dep # deps) results st =
     (case lookupOrResolve e rs st (pathResolve (workdir e) directory dep) of
        None \<Rightarrow> walk n searchConfig e directory rs deps results st
      | Some (dependency, st1) \<Rightarrow>
          (case getDependencies n searchConfig e st1 dependency of
             Returns children st2 \<Rightarrow>
               walk n searchConfig e directory rs deps
                 (addAll children (setAdd dependency results)) st2
           | Throws err st2 \<Rightarrow> Throws err st2
           | Diverges \<Rightarrow> Diverges))"
  by pat_completeness auto
termination
  by (relation "inv_image (less_than <*lex*> less_than)
        (\<lambda>x. case x of
               Inl (n, searchConfig, e, st, filename) \<Rightarrow> (n, 0)
             | Inr (n, searchConfig, e, directory, rs, deps, results, st) \<Rightarrow> (n, Suc (length deps)))")
     auto

section \<open>Notions used in the statements\<close>

text \<open>The resolver pipeline that the search configuration gives a file extension.\<close>

definition pipeline :: "searchConfig \<Rightarrow> string \<Rightarrow> (string \<Rightarrow> string) list" where
  "pipeline searchConfig ext = resolvers (configFor searchConfig ext)"

fun returned :: "outcome \<Rightarrow> string list option" where
  "returned (Returns results st) = Some results"
| "returned (Throws err st) = None"
| "returned Diverges = None"


text \<open>The caches a call leaves behind, whether it returns or throws.\<close>

fun finalState :: "outcome \<Rightarrow> state option" where
  "finalState (Returns results st) = Some st"
| "finalState (Throws err st) = Some st"
| "finalState Diverges = None"

text \<open>
  A call of a resolver made by the factory: the depth available, the search
  configuration of the resolver, the file system at the time, and the file asked for.
\<close>

record call =
  depth :: nat
  config :: searchConfig
  fileSystem :: env
  root :: string

definition runCall :: "call \<Rightarrow> state \<Rightarrow> outcome" where
  "runCall c st = getDependencies (depth c) (config c) (fileSystem c) st (root c)"

text \<open>A sequence of calls, each on the caches the one before has left.\<close>

fun runCalls :: "call list \<Rightarrow> state \<Rightarrow> state option" where
  "runCalls [] st = Some st"
| "runCalls (c # cs) st =
     (case finalState (runCall c st) of None \<Rightarrow> None | Some st1 \<Rightarrow> runCalls cs st1)"

text \<open>
  How a call may change the caches: an entry of the resolution cache is left as it
  is, or, where there was no truthy entry, becomes what one of the pipelines \<open>RS\<close>
  resolves the key to, the key being a path made by \<^verbatim>\<open>path.resolve\<close>; an entry of the
  extraction cache is left as it is or added; the log of reads is extended.
\<close>

definition grows :: "(string \<Rightarrow> string) list set \<Rightarrow> env \<Rightarrow> state \<Rightarrow> state \<Rightarrow> bool" where
  "grows RS e st st' \<longleftrightarrow>
     (\<forall>K. resolverCache st' K = resolverCache st K \<or>
          (cachedResolution st K = None \<and>
           (\<exists>v rs. rs \<in> RS \<and> resolverCache st' K = Some v \<and>
                   resolveDependencyReference e K rs = Some v \<and>
                   (\<exists>d dep. K = pathResolve (workdir e) d dep)))) \<and>
     (\<forall>k. dependencyCache st' k = dependencyCache st k \<or>
          (dependencyCache st k = None \<and> dependencyCache st' k \<noteq> None)) \<and>
     (\<exists>new. reads st' = reads st @ new)"

text \<open>
  The references that the parsers of a file's extension extract from its content, and
  what it means that all of them resolve to one file.
\<close>

definition extracted :: "searchConfig \<Rightarrow> env \<Rightarrow> string \<Rightarrow> string list option" where
  "extracted searchConfig e f =
     (case readFileSync e f of
        Inl err \<Rightarrow> None
      | Inr content \<Rightarrow> runParsers (parsers (configFor searchConfig (extname f))) [content])"

definition resolvesAllTo :: "searchConfig \<Rightarrow> env \<Rightarrow> string \<Rightarrow> string \<Rightarrow> bool" where
  "resolvesAllTo searchConfig e f g \<longleftrightarrow>
     (\<exists>deps. extracted searchConfig e f = Some deps \<and> deps \<noteq> [] \<and>
        (\<forall>dep \<in> set deps.
           resolveDependencyReference e (pathResolve (workdir e) (dirname f) dep)
             (pipeline searchConfig (extname f)) = Some g))"

definition twoFileCycle :: "searchConfig \<Rightarrow> env \<Rightarrow> string \<Rightarrow> string \<Rightarrow> bool" where
  "twoFileCycle searchConfig e A B \<longleftrightarrow>
     resolvesAllTo searchConfig e A B \<and> resolvesAllTo searchConfig e B A"

text \<open>
  Caches that hold, for the two files of a cycle, nothing but what the walk itself
  puts there: their extracted references, and resolutions of these to one of the two.
\<close>

definition cycleCaches :: "searchConfig \<Rightarrow> env \<Rightarrow> string \<Rightarrow> string \<Rightarrow> state \<Rightarrow> bool" where
  "cycleCaches searchConfig e A B st \<longleftrightarrow>
     (\<forall>f \<in> {A, B}. \<forall>stats deps.
        statSync e f = Inr stats \<longrightarrow> dependencyCache st (cacheKey f stats) = Some deps \<longrightarrow>
        extracted searchConfig e f = Some deps) \<and>
     (\<forall>f \<in> {A, B}. \<forall>deps dep v.
        extracted searchConfig e f = Some deps \<longrightarrow> dep \<in> set deps \<longrightarrow>
        cachedResolution st (pathResolve (workdir e) (dirname f) dep) = Some v \<longrightarrow>
        v \<in> {A, B})"


text \<open>A reference that is one name of word characters and hyphens, like \<^verbatim>\<open>foo\<close>.\<close>

definition plainName :: "string \<Rightarrow> bool" where
  "plainName name \<longleftrightarrow> name \<noteq> [] \<and> (\<forall>c \<in> set name. c \<in> set wordChars \<or> c = CHR ''-'')"

text \<open>A text with no quote character, single or double.\<close>

definition quoteFree :: "string \<Rightarrow> bool" where
  "quoteFree s \<longleftrightarrow> dquote \<notin> set s \<and> squote \<notin> set s"



text \<open>
  A walk that only reads the caches: every file it meets has its references cached
  under its modification time, and every reference has a cached resolution or none at
  all. \<open>replay searchConfig e st f results\<close> says that \<open>getDependencies\<close> on \<open>f\<close> is
  such a walk on the caches \<open>st\<close> and gives \<open>results\<close>; \<open>replayWalk\<close> is its loop.
\<close>

inductive replay :: "searchConfig \<Rightarrow> env \<Rightarrow> state \<Rightarrow> string \<Rightarrow> string list \<Rightarrow> bool"
  and replayWalk :: "searchConfig \<Rightarrow> env \<Rightarrow> state \<Rightarrow> string \<Rightarrow> (string \<Rightarrow> string) list
                       \<Rightarrow> string list \<Rightarrow> string list \<Rightarrow> string list \<Rightarrow> bool"
  for searchConfig :: searchConfig and e :: env and st :: state where
  replayFile: "statSync e f = Inr stats \<Longrightarrow> dependencyCache st (cacheKey f stats) = Some deps \<Longrightarrow>
         replayWalk searchConfig e st (dirname f) (pipeline searchConfig (extname f)) deps [] R \<Longrightarrow>
         replay searchConfig e st f R"
| walkDone: "replayWalk searchConfig e st d rs [] results results"
| walkSkip: "cachedResolution st (pathResolve (workdir e) d dep) = None \<Longrightarrow>
         resolveDependencyReference e (pathResolve (workdir e) d dep) rs = None \<Longrightarrow>
         replayWalk searchConfig e st d rs deps results R \<Longrightarrow>
         replayWalk searchConfig e st d rs (dep # deps) results R"
| walkHit: "cachedResolution st (pathResolve (workdir e) d dep) = Some z \<Longrightarrow>
        replay searchConfig e st z children \<Longrightarrow>
        replayWalk searchConfig e st d rs deps (addAll children (setAdd z results)) R \<Longrightarrow>
        replayWalk searchConfig e st d rs (dep # deps) results R"





section \<open>Scenarios\<close>

text \<open>A directory \<^verbatim>\<open>/a\<close> holding a stylesheet, a partial and a directory named like a
  stylesheet.\<close>

definition partialEnv :: env where
  "partialEnv =
     \<lparr> files = map_of
         [(''/a'', Directory 1),
          (''/a/theme.scss'', RegularFile 2 (Some (''@use '' @ [squote] @ ''foo'' @ [squote] @ '';''))),
          (''/a/foo.scss'', Directory 3),
          (''/a/_foo.scss'', RegularFile 4 (Some []))],
       workdir = ''/a'' \<rparr>"

text \<open>One call of the default resolver on the stylesheet of \<open>partialEnv\<close>.\<close>

definition scssCalls :: "call list" where
  "scssCalls =
     [\<lparr> depth = 3, config = defaultSearchConfig, fileSystem = partialEnv,
        root = ''/a/theme.scss'' \<rparr>]"

text \<open>Two scripts that import each other.\<close>

definition cycleEnv :: env where
  "cycleEnv =
     \<lparr> files = map_of
         [(''/a'', Directory 1),
          (''/a/a.js'', RegularFile 2 (Some (''import b from '' @ [squote] @ ''./b'' @ [squote] @ '';''))),
          (''/a/b.js'', RegularFile 3 (Some (''import a from '' @ [squote] @ ''./a'' @ [squote] @ '';'')))],
       workdir = ''/a'' \<rparr>"

text \<open>A text file whose whole content is the name of the file beside it.\<close>

definition strayEnv :: env where
  "strayEnv =
     \<lparr> files = map_of
         [(''/a'', Directory 1),
          (''/a/notes.txt'', RegularFile 2 (Some ''todo.txt'')),
          (''/a/todo.txt'', RegularFile 3 (Some []))],
       workdir = ''/a'' \<rparr>"


text \<open>
  A script that imports \<^verbatim>\<open>./util\<close> where both \<^verbatim>\<open>util.js\<close> and \<^verbatim>\<open>util.mjs\<close> exist,
  and a search configuration that differs from the default one in trying the
  extension \<^verbatim>\<open>.mjs\<close> before \<^verbatim>\<open>.js\<close>.
\<close>

definition twinEnv :: env where
  "twinEnv =
     \<lparr> files = map_of
         [(''/a'', Directory 1),
          (''/a/main.js'', RegularFile 2
             (Some (''import u from '' @ [squote] @ ''./util'' @ [squote] @ '';''))),
          (''/a/util.js'', RegularFile 3 (Some [])),
          (''/a/util.mjs'', RegularFile 4 (Some []))],
       workdir = ''/a'' \<rparr>"

definition mjsFirstConfig :: searchConfig where
  "mjsFirstConfig ext =
     (if ext = ''.js'' \<or> ext = ''.mjs''
      then Some \<lparr> parsers = parsers jsSearchConfig,
                  resolvers = [\<lambda>filename. filename @ ''.mjs'', \<lambda>filename. filename @ ''.js''] \<rparr>
      else None)"

text \<open>A search configuration that takes every quoted literal of a script for a reference.\<close>

definition everyLiteralConfig :: searchConfig where
  "everyLiteralConfig ext =
     (if ext = ''.js'' \<or> ext = ''.mjs''
      then Some \<lparr> parsers = [RegExpParser jsUnquotePattern],
                  resolvers = resolvers jsSearchConfig \<rparr>
      else None)"

text \<open>The same two files beside a script that imports one and names the other in a string.\<close>

definition strayTwinEnv :: env where
  "strayTwinEnv =
     \<lparr> files = map_of
         [(''/a'', Directory 1),
          (''/a/main.js'', RegularFile 2
             (Some (''import u from '' @ [squote] @ ''./util'' @ [squote] @ '';'' @ [CHR 0x0A]
                    @ ''const other = '' @ [dquote] @ ''./util.mjs'' @ [dquote] @ '';''))),
          (''/a/util.js'', RegularFile 3 (Some [])),
          (''/a/util.mjs'', RegularFile 4 (Some []))],
       workdir = ''/a'' \<rparr>"



text \<open>A stylesheet beside a partial and a file whose name is the reference itself.\<close>

definition shadowEnv :: env where
  "shadowEnv =
     \<lparr> files = map_of
         [(''/a'', Directory 1),
          (''/a/theme.scss'', RegularFile 2 (Some (''@use '' @ [squote] @ ''foo'' @ [squote] @ '';''))),
          (''/a/foo'', RegularFile 3 (Some [])),
          (''/a/_foo.scss'', RegularFile 4 (Some []))],
       workdir = ''/a'' \<rparr>"

text \<open>A stylesheet that uses \<^verbatim>\<open>base\<close> where only the partial \<^verbatim>\<open>_base.scss\<close> exists.\<close>

definition themeEnv :: env where
  "themeEnv =
     \<lparr> files = map_of
         [(''/p'', Directory 1),
          (''/p/theme.scss'', RegularFile 2 (Some (''@use '' @ [squote] @ ''base'' @ [squote] @ '';''))),
          (''/p/_base.scss'', RegularFile 3 (Some []))],
       workdir = ''/p'' \<rparr>"

text \<open>A script whose import statement is indented, and the same script without the
  indentation; the imported script exists.\<close>

definition indentedEnv :: env where
  "indentedEnv =
     \<lparr> files = map_of
         [(''/a'', Directory 1),
          (''/a/main.js'', RegularFile 2
             (Some (''  import a from '' @ [squote] @ ''./a'' @ [squote] @ '';''))),
          (''/a/flush.js'', RegularFile 3
             (Some (''import a from '' @ [squote] @ ''./a'' @ [squote] @ '';''))),
          (''/a/a.js'', RegularFile 4 (Some []))],
       workdir = ''/a'' \<rparr>"





section \<open>Properties of the path resolver\<close>

lemma existsAsFile_iff:
  "existsAsFile e p \<longleftrightarrow> (\<exists>t c. lookupNode e p = Some (RegularFile t c))"
  by (cases "lookupNode e p"; cases "the (lookupNode e p)")
     (auto simp: existsAsFile_def existsSync_def statSync_def)

lemma existsAsFile_nonempty: "existsAsFile e p \<Longrightarrow> p \<noteq> []"
  by (auto simp: existsAsFile_iff lookupNode_def)

lemma tryResolvers_find:
  "tryResolvers e input rs = List.find (existsAsFile e) (map (\<lambda>r. r input) rs)"
  by (induction rs) (simp_all add: Let_def)

lemma tryResolvers_Some: "tryResolvers e input rs = Some p \<Longrightarrow> existsAsFile e p"
  by (induction rs) (auto simp: Let_def split: if_splits)

lemma resolve_Some_file: "resolveDependencyReference e input rs = Some p \<Longrightarrow> existsAsFile e p"
  by (auto simp: resolveDependencyReference_def dest: tryResolvers_Some split: if_splits)

text \<open>
  C4. \<open>resolveDependencyReference\<close> returns the candidate itself when a regular file
  exists at exactly that path; otherwise it returns the first of the resolvers' paths,
  each computed from the original candidate and taken in the order of the pipeline, at
  which a regular file exists; whatever it returns names a regular file, a path that
  names a directory never passes the test, and when no path passes the result is absent.
\<close>

theorem resolveDependencyReference_policy:
  "(existsAsFile e input \<longrightarrow> resolveDependencyReference e input rs = Some input) \<and>
   (\<not> existsAsFile e input \<longrightarrow>
      resolveDependencyReference e input rs
        = List.find (existsAsFile e) (map (\<lambda>resolver. resolver input) rs)) \<and>
   (\<forall>p. resolveDependencyReference e input rs = Some p \<longrightarrow>
      (\<exists>t c. lookupNode e p = Some (RegularFile t c))) \<and>
   (\<forall>p t. lookupNode e p = Some (Directory t) \<longrightarrow>
      \<not> existsAsFile e p \<and> resolveDependencyReference e input rs \<noteq> Some p) \<and>
   (\<not> existsAsFile e input \<and> (\<forall>resolver \<in> set rs. \<not> existsAsFile e (resolver input)) \<longrightarrow>
      resolveDependencyReference e input rs = None)"
proof (intro conjI allI impI)
  assume "existsAsFile e input"
  then show "resolveDependencyReference e input rs = Some input"
    by (simp add: resolveDependencyReference_def)
next
  assume "\<not> existsAsFile e input"
  then show "resolveDependencyReference e input rs
      = List.find (existsAsFile e) (map (\<lambda>resolver. resolver input) rs)"
    by (simp add: resolveDependencyReference_def tryResolvers_find)
next
  fix p assume "resolveDependencyReference e input rs = Some p"
  then show "\<exists>t c. lookupNode e p = Some (RegularFile t c)"
    using resolve_Some_file existsAsFile_iff by blast
next
  fix p t assume d: "lookupNode e p = Some (Directory t)"
  then show "\<not> existsAsFile e p" by (simp add: existsAsFile_iff)
  with resolve_Some_file show "resolveDependencyReference e input rs \<noteq> Some p" by blast
next
  assume "\<not> existsAsFile e input \<and> (\<forall>resolver \<in> set rs. \<not> existsAsFile e (resolver input))"
  then show "resolveDependencyReference e input rs = None"
    by (auto simp: resolveDependencyReference_def tryResolvers_find find_None_iff)
qed

theorem resolveDependencyReference_policy_witness:
  "\<not> existsAsFile partialEnv ''/a/foo'' \<and>
   lookupNode partialEnv ''/a/foo.scss'' = Some (Directory 3) \<and>
   resolveDependencyReference partialEnv ''/a/foo'' (resolvers scssSearchConfig) = Some ''/a/_foo.scss'' \<and>
   existsAsFile partialEnv ''/a/theme.scss'' \<and>
   resolveDependencyReference partialEnv ''/a/theme.scss'' (resolvers scssSearchConfig) = Some ''/a/theme.scss'' \<and>
   resolveDependencyReference partialEnv ''/a/bar'' (resolvers scssSearchConfig) = None"
proof -
  note pol = resolveDependencyReference_policy [where e = partialEnv and rs = "resolvers scssSearchConfig"]
  have ev: "existsAsFile partialEnv ''/a/theme.scss''" "existsAsFile partialEnv ''/a/_foo.scss''"
    "\<not> existsAsFile partialEnv ''/a/foo''" "\<not> existsAsFile partialEnv ''/a/foo.scss''"
    "\<not> existsAsFile partialEnv ''/a/bar''" "\<not> existsAsFile partialEnv ''/a/bar.scss''"
    "\<not> existsAsFile partialEnv ''/a/_bar.scss''" "\<not> existsAsFile partialEnv ''/a/bar/_index.scss''"
    "\<not> existsAsFile partialEnv ''/a/foo/_index.scss''"
    by (simp_all add: existsAsFile_iff lookupNode_def partialEnv_def)
  have sp: "sassPartial ''/a/foo'' = ''/a/_foo.scss''" "sassPartial ''/a/bar'' = ''/a/_bar.scss''"
    by (simp_all add: sassPartial_def wordChars_def)
  have pj: "pathJoin ''/a/bar'' ''_index.scss'' = ''/a/bar/_index.scss''"
    by (simp add: pathJoin_def normalize_def normalizeString_def normStep_def isAbsolute_def slash_def)
  have a: "resolveDependencyReference partialEnv ''/a/foo'' (resolvers scssSearchConfig) = Some ''/a/_foo.scss''"
    using pol [of "''/a/foo''"] ev by (simp add: scssSearchConfig_def sp)
  have b: "resolveDependencyReference partialEnv ''/a/theme.scss'' (resolvers scssSearchConfig) = Some ''/a/theme.scss''"
    using pol [of "''/a/theme.scss''"] ev by simp
  have c: "resolveDependencyReference partialEnv ''/a/bar'' (resolvers scssSearchConfig) = None"
    using pol [of "''/a/bar''"] ev by (simp add: scssSearchConfig_def sp pj)
  have d: "lookupNode partialEnv ''/a/foo.scss'' = Some (Directory 3)"
    by (simp add: lookupNode_def partialEnv_def)
  show ?thesis using a b c d ev by simp
qed

section \<open>How the caches grow\<close>

lemma resolve_nonempty: "resolveDependencyReference e K rs = Some v \<Longrightarrow> v \<noteq> []"
  using resolve_Some_file existsAsFile_nonempty by blast

lemma grows_refl: "grows RS e st st"
  by (simp add: grows_def)

lemma cachedResolution_Some_iff:
  "cachedResolution st K = Some v \<longleftrightarrow> resolverCache st K = Some v \<and> v \<noteq> []"
  by (auto simp: cachedResolution_def split: option.splits)

lemma cachedResolution_None_iff:
  "cachedResolution st K = None \<longleftrightarrow> resolverCache st K = None \<or> resolverCache st K = Some []"
  by (auto simp: cachedResolution_def split: option.splits)

lemma grows_rcD:
  "grows RS e st st' \<Longrightarrow>
     resolverCache st' K = resolverCache st K \<or>
     (cachedResolution st K = None \<and>
      (\<exists>v rs. rs \<in> RS \<and> resolverCache st' K = Some v \<and>
              resolveDependencyReference e K rs = Some v \<and>
              (\<exists>d dep. K = pathResolve (workdir e) d dep)))"
  by (simp add: grows_def)

lemma grows_dcD:
  "grows RS e st st' \<Longrightarrow>
     dependencyCache st' k = dependencyCache st k \<or>
     (dependencyCache st k = None \<and> dependencyCache st' k \<noteq> None)"
  by (simp add: grows_def)

lemma grows_readsD: "grows RS e st st' \<Longrightarrow> \<exists>new. reads st' = reads st @ new"
  by (simp add: grows_def)



lemma grows_trans:
  assumes a: "grows RS e st st1" and b: "grows RS e st1 st2"
  shows "grows RS e st st2"
  unfolding grows_def
proof (intro conjI allI)
  fix K
  note a1 = grows_rcD[OF a, of K] and b1 = grows_rcD[OF b, of K]
  from a1 b1 show "resolverCache st2 K = resolverCache st K \<or>
          (cachedResolution st K = None \<and>
           (\<exists>v rs. rs \<in> RS \<and> resolverCache st2 K = Some v \<and>
                   resolveDependencyReference e K rs = Some v \<and>
                   (\<exists>d dep. K = pathResolve (workdir e) d dep)))"
  proof (elim disjE conjE exE)
    assume "resolverCache st2 K = resolverCache st1 K" "resolverCache st1 K = resolverCache st K"
    then show ?thesis by simp
  next
    fix v rs d dep
    assume "resolverCache st2 K = resolverCache st1 K" "cachedResolution st K = None"
      "rs \<in> RS" "resolverCache st1 K = Some v" "resolveDependencyReference e K rs = Some v"
      "K = pathResolve (workdir e) d dep"
    then show ?thesis by auto
  next
    fix v rs d dep
    assume "resolverCache st1 K = resolverCache st K" "cachedResolution st1 K = None"
      "rs \<in> RS" "resolverCache st2 K = Some v" "resolveDependencyReference e K rs = Some v"
      "K = pathResolve (workdir e) d dep"
    then show ?thesis by (auto simp: cachedResolution_def)
  next
    fix v rs d dep v' rs' d' dep'
    assume "cachedResolution st1 K = None" "resolverCache st1 K = Some v'"
      "resolveDependencyReference e K rs' = Some v'"
    then have False using resolve_nonempty by (auto simp: cachedResolution_def)
    then show ?thesis ..
  qed
next
  fix k
  from grows_dcD[OF a, of k] grows_dcD[OF b, of k]
  show "dependencyCache st2 k = dependencyCache st k \<or>
         dependencyCache st k = None \<and> dependencyCache st2 k \<noteq> None"
    by auto
next
  from grows_readsD[OF a] grows_readsD[OF b] show "\<exists>new. reads st2 = reads st @ new"
    by auto
qed

lemma grows_mono: "grows RS e st st' \<Longrightarrow> RS \<subseteq> RS' \<Longrightarrow> grows RS' e st st'"
  unfolding grows_def by (meson subsetD)

lemma lookupOrResolve_grows:
  assumes "lookupOrResolve e rs st (pathResolve (workdir e) d dep) = Some (v, st1)" and "rs \<in> RS"
  shows "grows RS e st st1 \<and> cachedResolution st1 (pathResolve (workdir e) d dep) = Some v"
  using assms
  by (auto simp: lookupOrResolve_def grows_def cachedResolution_def
           split: option.splits if_splits) blast+

lemma loadDependencies_grows:
  "loadDependencies lc e st f = Loaded deps st1 \<Longrightarrow> grows RS e st st1"
  "loadDependencies lc e st f = LoadThrows err st1 \<Longrightarrow> st1 = st"
  by (auto simp: loadDependencies_def grows_def split: sum.splits option.splits if_splits)

lemma pipeline_range: "pipeline cfg ext \<in> range (pipeline cfg)"
  by simp

lemma getDependencies_walk_grows:
  "finalState (getDependencies n cfg e st f) = Some st' \<Longrightarrow> grows (range (pipeline cfg)) e st st'"
  "finalState (walk n cfg e d rs deps results st) = Some st' \<Longrightarrow>
     grows (insert rs (range (pipeline cfg))) e st st'"
proof (induction n cfg e st f and n cfg e d rs deps results st arbitrary: st' and st'
       rule: getDependencies_walk.induct)
  case (1 searchConfig e st filename)
  then show ?case by simp
next
  case (2 n searchConfig e st filename)
  show ?case
  proof (cases "loadDependencies (configFor searchConfig (extname filename)) e st filename")
    case (Loaded deps st1)
    with "2.prems" have
      "finalState (walk n searchConfig e (dirname filename)
          (resolvers (configFor searchConfig (extname filename))) deps [] st1) = Some st'"
      by simp
    from "2.IH"[OF Loaded this]
    have "grows (range (pipeline searchConfig)) e st1 st'"
      by (simp add: pipeline_def[symmetric] insert_absorb)
    then show ?thesis
      by (rule grows_trans[OF loadDependencies_grows(1)[OF Loaded]])
  next
    case (LoadThrows err st1)
    with "2.prems" loadDependencies_grows(2)[OF LoadThrows] show ?thesis
      by (simp add: grows_refl)
  next
    case LoadDiverges
    with "2.prems" show ?thesis by simp
  qed
next
  case (3 n searchConfig e directory rs results st)
  then show ?case by (simp add: grows_refl)
next
  case (4 n searchConfig e directory rs dep deps results st)
  let ?RS = "insert rs (range (pipeline searchConfig))"
  show ?case
  proof (cases "lookupOrResolve e rs st (pathResolve (workdir e) directory dep)")
    case None
    with "4.prems" "4.IH"(1) show ?thesis by simp
  next
    case (Some a)
    obtain v st1 where a: "a = (v, st1)" by (cases a)
    have g1: "grows ?RS e st st1"
      using lookupOrResolve_grows[of e rs st directory dep v st1 ?RS] Some a by simp
    show ?thesis
    proof (cases "getDependencies n searchConfig e st1 v")
      case (Returns children st2)
      have "grows (range (pipeline searchConfig)) e st1 st2"
        by (rule "4.IH"(2)[OF Some a[symmetric]]) (simp add: Returns)
      then have g2: "grows ?RS e st1 st2" by (rule grows_mono) auto
      from "4.prems" Some a Returns
      have "finalState (walk n searchConfig e directory rs deps
               (addAll children (setAdd v results)) st2) = Some st'" by simp
      from "4.IH"(3)[OF Some a[symmetric] Returns this]
      have g3: "grows ?RS e st2 st'" .
      show ?thesis by (rule grows_trans[OF grows_trans[OF g1 g2] g3])
    next
      case (Throws err st2)
      have "grows (range (pipeline searchConfig)) e st1 st2"
        by (rule "4.IH"(2)[OF Some a[symmetric]]) (simp add: Throws)
      then have g2: "grows ?RS e st1 st2" by (rule grows_mono) auto
      from "4.prems" Some a Throws have "st' = st2" by simp
      then show ?thesis using grows_trans[OF g1 g2] by simp
    next
      case Diverges
      with "4.prems" Some a show ?thesis by simp
    qed
  qed
qed

section \<open>The resolution cache\<close>

lemma pathResolve_absolute: "isAbsolute w \<Longrightarrow> isAbsolute (pathResolve w d dep)"
  by (cases w) (auto simp: pathResolve_def isAbsolute_def Let_def split: prod.splits list.splits)

lemma runCalls_resolverCache:
  "runCalls cs st = Some st' \<Longrightarrow> resolverCache st' K = Some v \<Longrightarrow>
     resolverCache st K = Some v \<or>
     (\<exists>c \<in> set cs. \<exists>ext d dep.
         resolveDependencyReference (fileSystem c) K (pipeline (config c) ext) = Some v \<and>
         K = pathResolve (workdir (fileSystem c)) d dep)"
proof (induction cs arbitrary: st)
  case Nil
  then show ?case by simp
next
  case (Cons c cs)
  from Cons.prems(1) obtain st1 where
    f: "finalState (runCall c st) = Some st1" and r: "runCalls cs st1 = Some st'"
    by (auto split: option.splits)
  from Cons.IH[OF r Cons.prems(2)] show ?case
  proof
    assume old: "resolverCache st1 K = Some v"
    from f have "grows (range (pipeline (config c))) (fileSystem c) st st1"
      unfolding runCall_def by (rule getDependencies_walk_grows(1))
    from grows_rcD[OF this, of K] old show ?thesis by auto
  next
    assume "\<exists>c \<in> set cs. \<exists>ext d dep.
         resolveDependencyReference (fileSystem c) K (pipeline (config c) ext) = Some v \<and>
         K = pathResolve (workdir (fileSystem c)) d dep"
    then show ?thesis by auto
  qed
qed

lemma lookupOrResolve_uncached:
  assumes "cachedResolution st K = None"
  shows "lookupOrResolve e rs st K =
     (case resolveDependencyReference e K rs of
        None \<Rightarrow> None
      | Some p \<Rightarrow> Some (p, st\<lparr>resolverCache := (resolverCache st)(K \<mapsto> p)\<rparr>))"
  using assms resolve_nonempty[of e K rs]
  by (simp add: lookupOrResolve_def split: option.splits)

text \<open>
  C6. After any sequence of calls that starts on empty caches, whatever the search
  configurations of the resolvers and the file systems at the time, every entry of the
  resolution cache maps a candidate path (absolute when the working directory is) to
  the path that a resolution of one of the calls succeeded with, a regular file then.
  A candidate with no cached resolution whose resolution fails leaves the caches as
  they are and the loop passes on to the next reference; and whenever a candidate has
  no cached resolution, what the loop does with it is what a fresh resolution in the
  file system of the moment gives.
\<close>

theorem resolverCache_only_successes:
  "(runCalls cs emptyState = Some st \<and> resolverCache st K = Some v \<longrightarrow>
      (\<exists>c \<in> set cs. \<exists>ext.
          resolveDependencyReference (fileSystem c) K (pipeline (config c) ext) = Some v \<and>
          existsAsFile (fileSystem c) v \<and>
          (isAbsolute (workdir (fileSystem c)) \<longrightarrow> isAbsolute K))) \<and>
   (cachedResolution st0 (pathResolve (workdir e) d dep) = None \<and>
    resolveDependencyReference e (pathResolve (workdir e) d dep) rs = None \<longrightarrow>
      lookupOrResolve e rs st0 (pathResolve (workdir e) d dep) = None \<and>
      walk n cfg e d rs (dep # deps) results st0 = walk n cfg e d rs deps results st0) \<and>
   (cachedResolution st0 K' = None \<longrightarrow>
      lookupOrResolve e rs st0 K' =
        (case resolveDependencyReference e K' rs of
           None \<Rightarrow> None
         | Some p \<Rightarrow> Some (p, st0\<lparr>resolverCache := (resolverCache st0)(K' \<mapsto> p)\<rparr>)))"
proof (intro conjI impI)
  assume a: "runCalls cs emptyState = Some st \<and> resolverCache st K = Some v"
  from runCalls_resolverCache[of cs emptyState st K v] a
  obtain c ext d dep where c: "c \<in> set cs"
    and r: "resolveDependencyReference (fileSystem c) K (pipeline (config c) ext) = Some v"
    and k: "K = pathResolve (workdir (fileSystem c)) d dep"
    by (auto simp: emptyState_def)
  from k have "isAbsolute (workdir (fileSystem c)) \<longrightarrow> isAbsolute K"
    by (simp add: pathResolve_absolute)
  with c r resolve_Some_file[OF r]
  show "\<exists>c \<in> set cs. \<exists>ext.
          resolveDependencyReference (fileSystem c) K (pipeline (config c) ext) = Some v \<and>
          existsAsFile (fileSystem c) v \<and>
          (isAbsolute (workdir (fileSystem c)) \<longrightarrow> isAbsolute K)"
    by blast
next
  assume a: "cachedResolution st0 (pathResolve (workdir e) d dep) = None \<and>
    resolveDependencyReference e (pathResolve (workdir e) d dep) rs = None"
  then show l: "lookupOrResolve e rs st0 (pathResolve (workdir e) d dep) = None"
    by (simp add: lookupOrResolve_uncached)
  then show "walk n cfg e d rs (dep # deps) results st0 = walk n cfg e d rs deps results st0"
    by simp
next
  assume "cachedResolution st0 K' = None"
  then show "lookupOrResolve e rs st0 K' =
        (case resolveDependencyReference e K' rs of
           None \<Rightarrow> None
         | Some p \<Rightarrow> Some (p, st0\<lparr>resolverCache := (resolverCache st0)(K' \<mapsto> p)\<rparr>))"
    by (rule lookupOrResolve_uncached)
qed

theorem resolverCache_only_successes_witness:
  "(\<exists>st. runCalls scssCalls emptyState = Some st \<and>
         resolverCache st ''/a/foo'' = Some ''/a/_foo.scss'' \<and>
         (\<exists>c \<in> set scssCalls. \<exists>ext.
            resolveDependencyReference (fileSystem c) ''/a/foo'' (pipeline (config c) ext)
              = Some ''/a/_foo.scss'' \<and>
            existsAsFile (fileSystem c) ''/a/_foo.scss'' \<and> isAbsolute ''/a/foo'')) \<and>
   cachedResolution emptyState (pathResolve (workdir partialEnv) ''/a'' ''bar'') = None \<and>
   resolveDependencyReference partialEnv (pathResolve (workdir partialEnv) ''/a'' ''bar'')
      (resolvers scssSearchConfig) = None \<and>
   walk 3 defaultSearchConfig partialEnv ''/a'' (resolvers scssSearchConfig) [''bar''] [] emptyState
     = Returns [] emptyState"
proof -
  have "case runCalls scssCalls emptyState of
          None \<Rightarrow> False
        | Some st \<Rightarrow> resolverCache st ''/a/foo'' = Some ''/a/_foo.scss''"
    by code_simp
  then obtain st where st: "runCalls scssCalls emptyState = Some st"
    "resolverCache st ''/a/foo'' = Some ''/a/_foo.scss''"
    by (auto split: option.splits)
  have w: "isAbsolute (workdir (fileSystem c))" if "c \<in> set scssCalls" for c
    using that by (auto simp: scssCalls_def partialEnv_def isAbsolute_def slash_def)
  have h1: "cachedResolution emptyState (pathResolve (workdir partialEnv) ''/a'' ''bar'') = None"
    by (simp add: cachedResolution_def emptyState_def)
  have h2: "resolveDependencyReference partialEnv (pathResolve (workdir partialEnv) ''/a'' ''bar'')
      (resolvers scssSearchConfig) = None"
    by code_simp
  note t = resolverCache_only_successes[where cs = scssCalls and st = st and K = "''/a/foo''"
      and v = "''/a/_foo.scss''" and ?st0.0 = emptyState and e = partialEnv and d = "''/a''"
      and dep = "''bar''" and rs = "resolvers scssSearchConfig" and n = 3
      and cfg = defaultSearchConfig and deps = "[]" and results = "[]"]
  from t st have a: "\<exists>c \<in> set scssCalls. \<exists>ext.
          resolveDependencyReference (fileSystem c) ''/a/foo'' (pipeline (config c) ext)
            = Some ''/a/_foo.scss'' \<and>
          existsAsFile (fileSystem c) ''/a/_foo.scss'' \<and>
          (isAbsolute (workdir (fileSystem c)) \<longrightarrow> isAbsolute ''/a/foo'')"
    by blast
  from t h1 h2 have b: "walk 3 defaultSearchConfig partialEnv ''/a'' (resolvers scssSearchConfig)
      [''bar''] [] emptyState = Returns [] emptyState"
    by simp
  from a w have "\<exists>c \<in> set scssCalls. \<exists>ext.
            resolveDependencyReference (fileSystem c) ''/a/foo'' (pipeline (config c) ext)
              = Some ''/a/_foo.scss'' \<and>
            existsAsFile (fileSystem c) ''/a/_foo.scss'' \<and> isAbsolute ''/a/foo''"
    by blast
  with st h1 h2 b show ?thesis by blast
qed

section \<open>Cycles\<close>

lemma showNat_digits: "set (showNat n) \<subseteq> set ''0123456789''"
proof (induction n rule: showNat.induct)
  case (1 n)
  have d: "''0123456789'' ! k \<in> set ''0123456789''" if "k < 10" for k
    using that nth_mem[of k "''0123456789''"] by simp
  show ?case
  proof (cases "n < 10")
    case True
    then show ?thesis using d[of n] by (subst showNat.simps) simp
  next
    case False
    with 1 have "set (showNat (n div 10)) \<subseteq> set ''0123456789''" by simp
    moreover have "''0123456789'' ! (n mod 10) \<in> set ''0123456789''" by (rule d) simp
    ultimately show ?thesis using False by (subst showNat.simps) auto
  qed
qed

lemma showInt_no_at: "CHR ''@'' \<notin> set (showInt t)"
  using showNat_digits[of "nat t"] showNat_digits[of "nat (- t)"]
  by (auto simp: showInt_def)

lemma split_at_first:
  "c \<notin> set xs \<Longrightarrow> c \<notin> set xs' \<Longrightarrow> xs @ c # ys = xs' @ c # ys' \<Longrightarrow> xs = xs' \<and> ys = ys'"
proof (induction xs arbitrary: xs')
  case Nil
  then show ?case by (cases xs') auto
next
  case (Cons x xs)
  then show ?case by (cases xs') auto
qed

lemma append_at_inject:
  assumes "f @ CHR ''@'' # s = g @ CHR ''@'' # t" and "CHR ''@'' \<notin> set s" and "CHR ''@'' \<notin> set t"
  shows "f = g \<and> s = t"
proof -
  have "rev s @ CHR ''@'' # rev f = rev t @ CHR ''@'' # rev g"
    using arg_cong[OF assms(1), of rev] by simp
  moreover have "CHR ''@'' \<notin> set (rev s)" "CHR ''@'' \<notin> set (rev t)" using assms by auto
  ultimately have "rev s = rev t \<and> rev f = rev g"
    by (rule split_at_first[rotated 2])
  then show ?thesis by simp
qed

lemma cacheKey_inject: "cacheKey f stats = cacheKey g stats' \<Longrightarrow> f = g"
  using append_at_inject[of f "showInt (mtimeMs stats)" g "showInt (mtimeMs stats')"] showInt_no_at
  by (simp add: cacheKey_def)

lemma extracted_statSync:
  "extracted cfg e f = Some deps \<Longrightarrow> \<exists>stats. statSync e f = Inr stats"
  by (auto simp: extracted_def readFileSync_def statSync_def split: sum.splits option.splits)

lemma loadDependencies_extracted:
  assumes "extracted cfg e f = Some deps" and "statSync e f = Inr stats"
    and "dependencyCache st (cacheKey f stats) = None"
  shows "loadDependencies (configFor cfg (extname f)) e st f =
           Loaded deps (st\<lparr>dependencyCache := (dependencyCache st)(cacheKey f stats \<mapsto> deps),
                           reads := reads st @ [f]\<rparr>)"
  using assms by (auto simp: loadDependencies_def extracted_def split: sum.splits)

lemma loadDependencies_cached:
  assumes "statSync e f = Inr stats" and "dependencyCache st (cacheKey f stats) = Some deps"
  shows "loadDependencies lc e st f = Loaded deps st"
  using assms by (simp add: loadDependencies_def)

lemma cycleCaches_dcD:
  assumes "cycleCaches cfg e A B st" and "f \<in> {A, B}" and "statSync e f = Inr stats"
    and "dependencyCache st (cacheKey f stats) = Some deps"
  shows "extracted cfg e f = Some deps"
proof -
  from assms(1) have "\<forall>f \<in> {A, B}. \<forall>stats deps.
        statSync e f = Inr stats \<longrightarrow> dependencyCache st (cacheKey f stats) = Some deps \<longrightarrow>
        extracted cfg e f = Some deps"
    unfolding cycleCaches_def by (rule conjunct1)
  from bspec[OF this assms(2)] assms(3,4) show ?thesis by blast
qed

lemma cycleCaches_rcD:
  assumes "cycleCaches cfg e A B st" and "f \<in> {A, B}" and "extracted cfg e f = Some deps"
    and "dep \<in> set deps"
    and "cachedResolution st (pathResolve (workdir e) (dirname f) dep) = Some v"
  shows "v \<in> {A, B}"
proof -
  from assms(1) have "\<forall>f \<in> {A, B}. \<forall>deps dep v.
        extracted cfg e f = Some deps \<longrightarrow> dep \<in> set deps \<longrightarrow>
        cachedResolution st (pathResolve (workdir e) (dirname f) dep) = Some v \<longrightarrow>
        v \<in> {A, B}"
    unfolding cycleCaches_def by (rule conjunct2)
  from bspec[OF this assms(2)] assms(3,4,5) show ?thesis by blast
qed

lemma cycleCaches_sym: "cycleCaches cfg e A B st \<Longrightarrow> cycleCaches cfg e B A st"
  by (simp add: cycleCaches_def insert_commute)

lemma cycleCaches_load:
  assumes c: "cycleCaches cfg e A B st" and x: "extracted cfg e A = Some deps"
  shows "\<exists>st1. loadDependencies (configFor cfg (extname A)) e st A = Loaded deps st1 \<and>
               cycleCaches cfg e A B st1"
proof -
  from extracted_statSync[OF x] obtain stats where s: "statSync e A = Inr stats" by blast
  show ?thesis
  proof (cases "dependencyCache st (cacheKey A stats)")
    case None
    let ?st1 = "st\<lparr>dependencyCache := (dependencyCache st)(cacheKey A stats \<mapsto> deps),
                    reads := reads st @ [A]\<rparr>"
    have "cycleCaches cfg e A B ?st1"
      unfolding cycleCaches_def
    proof (intro conjI ballI allI impI)
      fix f stats' deps'
      assume f: "f \<in> {A, B}" and s': "statSync e f = Inr stats'"
        and d: "dependencyCache ?st1 (cacheKey f stats') = Some deps'"
      show "extracted cfg e f = Some deps'"
      proof (cases "cacheKey f stats' = cacheKey A stats")
        case True
        then have "f = A" by (rule cacheKey_inject)
        with True d x show ?thesis by simp
      next
        case False
        with d have dd: "dependencyCache st (cacheKey f stats') = Some deps'" by simp
        from cycleCaches_dcD[OF c f s' dd] show ?thesis .
      qed
    next
      fix f deps' dep v
      assume f: "f \<in> {A, B}" "extracted cfg e f = Some deps'" "dep \<in> set deps'"
        and v: "cachedResolution ?st1 (pathResolve (workdir e) (dirname f) dep) = Some v"
      have "cachedResolution ?st1 K = cachedResolution st K" for K
        by (simp add: cachedResolution_def)
      with v have "cachedResolution st (pathResolve (workdir e) (dirname f) dep) = Some v"
        by simp
      from cycleCaches_rcD[OF c f this] show "v \<in> {A, B}" .
    qed
    with loadDependencies_extracted[OF x s None] show ?thesis by blast
  next
    case (Some deps')
    with c s have "extracted cfg e A = Some deps'" using cycleCaches_dcD[of cfg e A B st A] by simp
    with x have "deps' = deps" by simp
    with loadDependencies_cached[OF s Some] c show ?thesis by blast
  qed
qed

lemma cycleCaches_lookup:
  assumes c: "cycleCaches cfg e A B st" and x: "extracted cfg e A = Some deps"
    and d: "dep \<in> set deps"
    and r: "resolveDependencyReference e (pathResolve (workdir e) (dirname A) dep)
              (pipeline cfg (extname A)) = Some B"
  shows "\<exists>v st1. lookupOrResolve e (pipeline cfg (extname A)) st
                   (pathResolve (workdir e) (dirname A) dep) = Some (v, st1) \<and>
                 v \<in> {A, B} \<and> cycleCaches cfg e A B st1"
proof (cases "cachedResolution st (pathResolve (workdir e) (dirname A) dep)")
  case (Some v)
  with c x d have "v \<in> {A, B}" using cycleCaches_rcD[of cfg e A B st A] by simp
  with Some c show ?thesis by (simp add: lookupOrResolve_def)
next
  case None
  let ?K = "pathResolve (workdir e) (dirname A) dep"
  let ?st1 = "st\<lparr>resolverCache := (resolverCache st)(?K \<mapsto> B)\<rparr>"
  have l: "lookupOrResolve e (pipeline cfg (extname A)) st ?K = Some (B, ?st1)"
    using None r by (simp add: lookupOrResolve_uncached)
  have "cycleCaches cfg e A B ?st1"
    unfolding cycleCaches_def
  proof (intro conjI ballI allI impI)
    fix f stats' deps'
    assume "f \<in> {A, B}" "statSync e f = Inr stats'"
      "dependencyCache ?st1 (cacheKey f stats') = Some deps'"
    then show "extracted cfg e f = Some deps'" using cycleCaches_dcD[OF c, of f stats' deps'] by simp
  next
    fix f deps' dep' v
    assume f: "f \<in> {A, B}" "extracted cfg e f = Some deps'" "dep' \<in> set deps'"
      and v: "cachedResolution ?st1 (pathResolve (workdir e) (dirname f) dep') = Some v"
    show "v \<in> {A, B}"
    proof (cases "pathResolve (workdir e) (dirname f) dep' = ?K")
      case True
      with v show ?thesis by (simp add: cachedResolution_def split: if_splits)
    next
      case False
      with v have "cachedResolution st (pathResolve (workdir e) (dirname f) dep') = Some v"
        by (simp add: cachedResolution_def)
      from cycleCaches_rcD[OF c f this] show ?thesis .
    qed
  qed
  with l show ?thesis by blast
qed

lemma cycle_diverges:
  assumes t: "twoFileCycle cfg e A B"
  shows "cycleCaches cfg e A B st \<Longrightarrow>
           getDependencies n cfg e st A = Diverges \<and> getDependencies n cfg e st B = Diverges"
proof (induction n arbitrary: st)
  case 0
  then show ?case by simp
next
  case (Suc n)
  have step: "getDependencies (Suc n) cfg e st' X = Diverges"
    if c: "cycleCaches cfg e X Y st'" and ra: "resolvesAllTo cfg e X Y"
      and ih: "\<And>st2. cycleCaches cfg e X Y st2 \<Longrightarrow>
                 getDependencies n cfg e st2 X = Diverges \<and> getDependencies n cfg e st2 Y = Diverges"
    for X Y st'
  proof -
    from ra obtain deps where x: "extracted cfg e X = Some deps" and ne: "deps \<noteq> []"
      and all: "\<forall>dep \<in> set deps.
           resolveDependencyReference e (pathResolve (workdir e) (dirname X) dep)
             (pipeline cfg (extname X)) = Some Y"
      unfolding resolvesAllTo_def by blast
    from cycleCaches_load[OF c x] obtain st1 where
      l: "loadDependencies (configFor cfg (extname X)) e st' X = Loaded deps st1"
      and c1: "cycleCaches cfg e X Y st1" by blast
    from ne obtain dep rest where deps: "deps = dep # rest" by (cases deps) auto
    with all have r: "resolveDependencyReference e (pathResolve (workdir e) (dirname X) dep)
             (pipeline cfg (extname X)) = Some Y" by simp
    from deps have "dep \<in> set deps" by simp
    from cycleCaches_lookup[OF c1 x this r] obtain v st2 where
      lo: "lookupOrResolve e (pipeline cfg (extname X)) st1
             (pathResolve (workdir e) (dirname X) dep) = Some (v, st2)"
      and v: "v \<in> {X, Y}" and c2: "cycleCaches cfg e X Y st2" by blast
    from ih[OF c2] v have "getDependencies n cfg e st2 v = Diverges" by auto
    with l lo deps show ?thesis by (simp add: pipeline_def)
  qed
  from t have ab: "resolvesAllTo cfg e A B" and ba: "resolvesAllTo cfg e B A"
    by (simp_all add: twoFileCycle_def)
  have "getDependencies (Suc n) cfg e st A = Diverges"
    using Suc.prems ab Suc.IH by (rule step)
  moreover have "getDependencies (Suc n) cfg e st B = Diverges"
  proof (rule step[OF cycleCaches_sym[OF Suc.prems] ba])
    fix st2 assume "cycleCaches cfg e B A st2"
    from Suc.IH[OF cycleCaches_sym[OF this]]
    show "getDependencies n cfg e st2 B = Diverges \<and> getDependencies n cfg e st2 A = Diverges"
      by simp
  qed
  ultimately show ?case by simp
qed

lemma cycleCaches_empty: "cycleCaches cfg e A B emptyState"
  by (simp add: cycleCaches_def emptyState_def cachedResolution_def)

lemma cycleEnv_cycle: "twoFileCycle defaultSearchConfig cycleEnv ''/a/a.js'' ''/a/b.js''"
proof -
  have a: "extracted defaultSearchConfig cycleEnv ''/a/a.js'' = Some [''./b'']"
    and b: "extracted defaultSearchConfig cycleEnv ''/a/b.js'' = Some [''./a'']"
    by code_simp+
  have ra: "resolveDependencyReference cycleEnv
      (pathResolve (workdir cycleEnv) (dirname ''/a/a.js'') ''./b'')
      (pipeline defaultSearchConfig (extname ''/a/a.js'')) = Some ''/a/b.js''"
    and rb: "resolveDependencyReference cycleEnv
      (pathResolve (workdir cycleEnv) (dirname ''/a/b.js'') ''./a'')
      (pipeline defaultSearchConfig (extname ''/a/b.js'')) = Some ''/a/a.js''"
    by code_simp+
  show ?thesis
    unfolding twoFileCycle_def resolvesAllTo_def using a b ra rb by simp
qed

text \<open>
  C1, as the claim states it, fails: for the two scripts of \<open>cycleEnv\<close>, which import
  each other, no depth of recursion makes \<open>getDependencies\<close> return.
\<close>

theorem cycle_never_returns_counterexample:
  "\<not> (\<exists>n results st. getDependencies n defaultSearchConfig cycleEnv emptyState ''/a/a.js''
                        = Returns results st)"
proof
  assume "\<exists>n results st. getDependencies n defaultSearchConfig cycleEnv emptyState ''/a/a.js''
                        = Returns results st"
  then obtain n results st where
    "getDependencies n defaultSearchConfig cycleEnv emptyState ''/a/a.js'' = Returns results st"
    by blast
  moreover have "getDependencies n defaultSearchConfig cycleEnv emptyState ''/a/a.js'' = Diverges"
    using cycle_diverges[OF cycleEnv_cycle cycleCaches_empty] by (rule conjunct1)
  ultimately show False by simp
qed

text \<open>
  C1, amended. For every pair of files \<open>A\<close> and \<open>B\<close> such that the references
  extracted from \<open>A\<close> all resolve to \<open>B\<close> and those of \<open>B\<close> all resolve to \<open>A\<close>, and for
  caches that hold nothing else for the two files, \<open>getDependencies\<close> on \<open>A\<close> does not
  return a set and does not throw: at every depth the recursion asks for a deeper one.
\<close>

theorem cycle_never_returns:
  "twoFileCycle cfg e A B \<Longrightarrow> cycleCaches cfg e A B st \<Longrightarrow>
     getDependencies n cfg e st A = Diverges"
  using cycle_diverges by blast

theorem cycle_never_returns_witness:
  "twoFileCycle defaultSearchConfig cycleEnv ''/a/a.js'' ''/a/b.js'' \<and>
   cycleCaches defaultSearchConfig cycleEnv ''/a/a.js'' ''/a/b.js'' emptyState \<and>
   getDependencies 1000 defaultSearchConfig cycleEnv emptyState ''/a/a.js'' = Diverges"
proof -
  have "getDependencies 1000 defaultSearchConfig cycleEnv emptyState ''/a/a.js'' = Diverges"
    by (rule cycle_never_returns[OF cycleEnv_cycle cycleCaches_empty])
  with cycleEnv_cycle cycleCaches_empty show ?thesis by (intro conjI)
qed

section \<open>Files of an unregistered extension\<close>

text \<open>
  C2. The claim is right and the code misses it: for a file whose extension has no
  entry, no parser runs, and the list of references stays what it was before the
  parsers, the content itself, which is then resolved like a reference. The text file
  of \<open>strayEnv\<close> exists, is readable and has an unregistered extension, and its
  content names the file beside it: the set returned is not empty.
\<close>

theorem unregistered_extension_content_is_resolved:
  "defaultSearchConfig (extname ''/a/notes.txt'') = None \<and>
   readFileSync strayEnv ''/a/notes.txt'' = Inr ''todo.txt'' \<and>
   returned (getDependencies 3 defaultSearchConfig strayEnv emptyState ''/a/notes.txt'')
     = Some [''/a/todo.txt'']"
  by code_simp

section \<open>Errors\<close>








section \<open>The members of a closure\<close>

lemma setAdd_set: "set (setAdd x xs) = insert x (set xs)"
  by (auto simp: setAdd_def)

lemma addAll_set: "set (addAll children results) = set children \<union> set results"
  unfolding addAll_def
  by (induction children arbitrary: results) (auto simp: setAdd_set)













section \<open>Resolving a plain name against a directory\<close>

lemma splitOn_nonempty: "splitOn c s \<noteq> []"
  by (induction s) (auto split: list.splits)

lemma splitOn_plain: "c \<notin> set s \<Longrightarrow> splitOn c s = [s]"
  by (induction s) auto

lemma splitOn_append: "splitOn c (a @ c # b) = splitOn c a @ splitOn c b"
proof (induction a)
  case Nil
  then show ?case by simp
next
  case (Cons x a)
  then show ?case using splitOn_nonempty[of c a]
    by (cases "splitOn c a") auto
qed

lemma joinWith_snoc:
  "joinWith c (xs @ [x]) = (if xs = [] then x else joinWith c xs @ c # x)"
  by (induction c xs rule: joinWith.induct) auto

lemma resolveAcc_acc:
  "resolveAcc ps acc = (fst (resolveAcc ps []) @ acc, snd (resolveAcc ps []))"
proof (induction ps arbitrary: acc)
  case Nil
  then show ?case by simp
next
  case (Cons p ps)
  show ?case
  proof (cases "p = [] \<or> isAbsolute p")
    case True
    then show ?thesis using Cons.IH[of acc] by auto
  next
    case False
    then show ?thesis using Cons.IH[of "p @ slash # acc"] Cons.IH[of "p @ [slash]"] by simp
  qed
qed

lemma resolveAcc_prefix:
  "fst (resolveAcc ps []) = [] \<or> last (fst (resolveAcc ps [])) = slash"
proof (induction ps)
  case Nil
  then show ?case by simp
next
  case (Cons p ps)
  show ?case
  proof (cases "p = [] \<or> isAbsolute p")
    case True
    then show ?thesis using Cons.IH by auto
  next
    case False
    then show ?thesis using resolveAcc_acc[of ps "p @ [slash]"] by simp
  qed
qed

text \<open>A path segment that \<^verbatim>\<open>path.resolve\<close> keeps as it is.\<close>

lemma normalizeString_segment:
  assumes "seg \<noteq> []" and "slash \<notin> set seg" and "seg \<noteq> ''.''" and "seg \<noteq> ''..''"
    and "pre = [] \<or> last pre = slash"
  shows "\<exists>base. (base = [] \<or> last base = slash) \<and>
           normalizeString (pre @ seg @ [slash]) allow = base @ seg \<and>
           base = (let S = foldl (normStep allow) [] (if pre = [] then [] else splitOn slash (butlast pre))
                   in if S = [] then [] else joinWith slash S @ [slash])"
proof -
  let ?xs = "if pre = [] then [] else splitOn slash (butlast pre)"
  have sp: "splitOn slash (pre @ seg @ [slash]) = ?xs @ [seg, []]"
  proof (cases "pre = []")
    case True
    then show ?thesis using splitOn_append[of slash seg "[]"] splitOn_plain[OF assms(2)] by simp
  next
    case False
    with assms(5) obtain pre' where p: "pre = pre' @ [slash]"
      by (cases pre rule: rev_cases) auto
    have "splitOn slash (pre' @ slash # (seg @ [slash]))
        = splitOn slash pre' @ splitOn slash (seg @ [slash])"
      by (rule splitOn_append)
    moreover have "splitOn slash (seg @ [slash]) = [seg, []]"
      using splitOn_append[of slash seg "[]"] splitOn_plain[OF assms(2)] by simp
    ultimately show ?thesis by (simp add: p)
  qed
  let ?S = "foldl (normStep allow) [] ?xs"
  have "foldl (normStep allow) [] (?xs @ [seg, []]) = ?S @ [seg]"
    using assms(1,3,4) by (simp add: normStep_def)
  then have "normalizeString (pre @ seg @ [slash]) allow
      = (if ?S = [] then [] else joinWith slash ?S @ [slash]) @ seg"
    unfolding normalizeString_def sp by (simp add: joinWith_snoc)
  then show ?thesis by (auto simp: Let_def)
qed

lemma pathResolve_segment:
  "\<exists>base. (base = [] \<or> last base = slash) \<and>
     (\<forall>seg. seg \<noteq> [] \<and> slash \<notin> set seg \<and> seg \<noteq> ''.'' \<and> seg \<noteq> ''..''
        \<longrightarrow> pathResolve w d seg = base @ seg)"
proof -
  obtain pre ab where r: "resolveAcc [d, w] [] = (pre, ab)" by (cases "resolveAcc [d, w] []")
  have pre: "pre = [] \<or> last pre = slash" using resolveAcc_prefix[of "[d, w]"] r by simp
  define S where
    "S = foldl (normStep (\<not> ab)) [] (if pre = [] then [] else splitOn slash (butlast pre))"
  define B where "B = (if S = [] then [] else joinWith slash S @ [slash])"
  let ?base = "if ab then slash # B else B"
  have b: "?base = [] \<or> last ?base = slash" by (auto simp: B_def)
  have "pathResolve w d seg = ?base @ seg"
    if s: "seg \<noteq> []" "slash \<notin> set seg" "seg \<noteq> ''.''" "seg \<noteq> ''..''" for seg
  proof -
    from s have na: "\<not> isAbsolute seg" by (cases seg) (auto simp: isAbsolute_def)
    have "resolveAcc [seg, d, w] [] = resolveAcc [d, w] (seg @ [slash])"
      using s(1) na by simp
    also have "\<dots> = (pre @ seg @ [slash], ab)"
      using resolveAcc_acc[of "[d, w]" "seg @ [slash]"] r by simp
    finally have ra: "resolveAcc [seg, d, w] [] = (pre @ seg @ [slash], ab)" .
    from normalizeString_segment[OF s pre, of "\<not> ab"]
    have n: "normalizeString (pre @ seg @ [slash]) (\<not> ab) = B @ seg"
      unfolding B_def S_def by (auto simp: Let_def)
    have "pathResolve w d seg =
        (let n = normalizeString (pre @ seg @ [slash]) (\<not> ab)
         in if ab then slash # n else if n \<noteq> [] then n else ''.'')"
      unfolding pathResolve_def ra by simp
    then show ?thesis unfolding n using s(1) by (simp add: Let_def)
  qed
  with b show ?thesis by blast
qed

lemma sassPartial_segment:
  assumes "name \<noteq> []" and "\<forall>c \<in> set name. c \<in> set wordChars \<or> c = CHR ''-''"
    and "base = [] \<or> last base = slash"
  shows "sassPartial (base @ name) = base @ ''_'' @ name @ ''.scss''"
proof -
  let ?P = "\<lambda>c. c \<in> set wordChars \<or> c = CHR ''-''"
  have ns: "\<not> ?P slash" by (simp add: slash_def wordChars_def)
  have "takeWhile ?P (rev name @ rev base) = rev name"
  proof (cases "base = []")
    case True
    then show ?thesis using assms(2) by simp
  next
    case False
    with assms(3) obtain base' where b: "base = base' @ [slash]"
      by (cases base rule: rev_cases) auto
    have "takeWhile ?P (rev name @ slash # rev base') = rev name"
      using assms(2) ns by (subst takeWhile_append2) auto
    then show ?thesis by (simp add: b)
  qed
  then have "rev (takeWhile ?P (rev (base @ name))) = name" by simp
  then show ?thesis using assms(1) by (simp add: sassPartial_def Let_def)
qed

section \<open>The partial of a stylesheet\<close>

lemma walk_results_subset:
  "walk n cfg e d rs deps results st = Returns R st' \<Longrightarrow> set results \<subseteq> set R"
proof (induction deps arbitrary: results st)
  case Nil
  then show ?case by simp
next
  case (Cons dep deps)
  show ?case
  proof (cases "lookupOrResolve e rs st (pathResolve (workdir e) d dep)")
    case None
    with Cons show ?thesis by simp
  next
    case (Some a)
    obtain v st1 where a: "a = (v, st1)" by (cases a)
    from Cons.prems Some a obtain children st2 where
      w: "walk n cfg e d rs deps (addAll children (setAdd v results)) st2 = Returns R st'"
      by (auto split: outcome.splits)
    from Cons.IH[OF w] show ?thesis by (auto simp: addAll_set setAdd_set)
  qed
qed

lemma plainName_segments:
  assumes "plainName name"
  shows "name \<noteq> [] \<and> slash \<notin> set name \<and> name \<noteq> ''.'' \<and> name \<noteq> ''..''"
    and "name @ ''.scss'' \<noteq> [] \<and> slash \<notin> set (name @ ''.scss'') \<and>
         name @ ''.scss'' \<noteq> ''.'' \<and> name @ ''.scss'' \<noteq> ''..''"
    and "''_'' @ name @ ''.scss'' \<noteq> [] \<and> slash \<notin> set (''_'' @ name @ ''.scss'') \<and>
         ''_'' @ name @ ''.scss'' \<noteq> ''.'' \<and> ''_'' @ name @ ''.scss'' \<noteq> ''..''"
proof -
  have w: "slash \<notin> set wordChars" "CHR ''.'' \<notin> set wordChars"
    by (simp_all add: slash_def wordChars_def)
  from assms have ne: "name \<noteq> []" and ch: "\<forall>c \<in> set name. c \<in> set wordChars \<or> c = CHR ''-''"
    by (simp_all add: plainName_def)
  from ch w have s: "slash \<notin> set name" and d: "CHR ''.'' \<notin> set name"
    by (auto simp: slash_def)
  from d have "name \<noteq> ''.''" "name \<noteq> ''..''" by auto
  with ne s show "name \<noteq> [] \<and> slash \<notin> set name \<and> name \<noteq> ''.'' \<and> name \<noteq> ''..''" by simp
  have l: "length (name @ ''.scss'') > 2" by simp
  from l have "name @ ''.scss'' \<noteq> ''.''" "name @ ''.scss'' \<noteq> ''..''"
    by (metis length_Cons list.size(3) less_irrefl_nat numeral_2_eq_2 One_nat_def
          Suc_lessD not_less_eq)+
  with s show "name @ ''.scss'' \<noteq> [] \<and> slash \<notin> set (name @ ''.scss'') \<and>
         name @ ''.scss'' \<noteq> ''.'' \<and> name @ ''.scss'' \<noteq> ''..''"
    by (simp add: slash_def)
  from s show "''_'' @ name @ ''.scss'' \<noteq> [] \<and> slash \<notin> set (''_'' @ name @ ''.scss'') \<and>
         ''_'' @ name @ ''.scss'' \<noteq> ''.'' \<and> ''_'' @ name @ ''.scss'' \<noteq> ''..''"
    by (simp add: slash_def)
qed

lemma partial_resolves:
  assumes pn: "plainName name"
    and "\<not> existsAsFile e (pathResolve w d name)"
    and "\<not> existsAsFile e (pathResolve w d (name @ ''.scss''))"
    and "existsAsFile e (pathResolve w d (''_'' @ name @ ''.scss''))"
  shows "resolveDependencyReference e (pathResolve w d name) (resolvers scssSearchConfig)
           = Some (pathResolve w d (''_'' @ name @ ''.scss''))"
proof -
  from pathResolve_segment[of w d] obtain base where
    b: "base = [] \<or> last base = slash"
    and r: "\<And>seg. seg \<noteq> [] \<and> slash \<notin> set seg \<and> seg \<noteq> ''.'' \<and> seg \<noteq> ''..''
              \<Longrightarrow> pathResolve w d seg = base @ seg"
    by blast
  note ps = plainName_segments[OF pn]
  have k: "pathResolve w d name = base @ name"
    and k1: "pathResolve w d (name @ ''.scss'') = base @ name @ ''.scss''"
    and k2: "pathResolve w d (''_'' @ name @ ''.scss'') = base @ ''_'' @ name @ ''.scss''"
    using r[OF ps(1)] r[OF ps(2)] r[OF ps(3)] by simp_all
  from pn have sp: "sassPartial (base @ name) = base @ ''_'' @ name @ ''.scss''"
    using sassPartial_segment[OF _ _ b, of name] by (simp add: plainName_def)
  from assms(2-4) show ?thesis
    unfolding k k1 k2
    by (simp add: resolveDependencyReference_def scssSearchConfig_def sp)
qed

lemma walk_contains:
  assumes inv: "\<forall>v. cachedResolution st K = Some v \<longrightarrow> v = P"
    and only: "\<forall>ext v. resolveDependencyReference e K (pipeline cfg ext) = Some v \<longrightarrow> v = P"
    and res: "resolveDependencyReference e K rs = Some P"
    and K: "K = pathResolve (workdir e) d name"
    and mem: "name \<in> set deps"
    and w: "walk n cfg e d rs deps results st = Returns R st'"
  shows "P \<in> set R"
  using inv mem w
proof (induction deps arbitrary: results st)
  case Nil
  then show ?case by simp
next
  case (Cons dep deps)
  show ?case
  proof (cases "lookupOrResolve e rs st (pathResolve (workdir e) d dep)")
    case None
    have "dep \<noteq> name"
    proof
      assume "dep = name"
      with None K have n: "lookupOrResolve e rs st K = None" by simp
      then have "cachedResolution st K = None"
        by (auto simp: lookupOrResolve_def split: option.splits)
      with n res show False by (simp add: lookupOrResolve_uncached)
    qed
    with Cons.prems(2) have "name \<in> set deps" by simp
    moreover from Cons.prems(3) None
    have "walk n cfg e d rs deps results st = Returns R st'" by simp
    ultimately show ?thesis using Cons.IH Cons.prems(1) by blast
  next
    case (Some a)
    obtain v st1 where a: "a = (v, st1)" by (cases a)
    from Cons.prems(3) Some a obtain children st2 where
      g: "getDependencies n cfg e st1 v = Returns children st2"
      and w2: "walk n cfg e d rs deps (addAll children (setAdd v results)) st2 = Returns R st'"
      by (auto split: outcome.splits)
    show ?thesis
    proof (cases "dep = name")
      case True
      with Some a K have l: "lookupOrResolve e rs st K = Some (v, st1)" by simp
      have "v = P"
      proof (cases "cachedResolution st K")
        case None
        with l res show ?thesis by (simp add: lookupOrResolve_uncached)
      next
        case (Some v')
        with l Cons.prems(1) show ?thesis by (auto simp: lookupOrResolve_def)
      qed
      with walk_results_subset[OF w2] show ?thesis by (auto simp: addAll_set setAdd_set)
    next
      case False
      with Cons.prems(2) have m: "name \<in> set deps" by simp
      let ?RS = "insert rs (range (pipeline cfg))"
      have g1: "grows ?RS e st st1"
        using lookupOrResolve_grows[of e rs st d dep v st1 ?RS] Some a by simp
      have "grows (range (pipeline cfg)) e st1 st2"
        using getDependencies_walk_grows(1)[of n cfg e st1 v st2] g by simp
      then have g2: "grows ?RS e st1 st2" by (rule grows_mono) auto
      have i2: "\<forall>v. cachedResolution st2 K = Some v \<longrightarrow> v = P"
      proof (intro allI impI)
        fix v' assume c: "cachedResolution st2 K = Some v'"
        from grows_rcD[OF grows_trans[OF g1 g2], of K]
        show "v' = P"
        proof
          assume "resolverCache st2 K = resolverCache st K"
          with c have "cachedResolution st K = Some v'" by (simp add: cachedResolution_def)
          with Cons.prems(1) show ?thesis by blast
        next
          assume "cachedResolution st K = None \<and>
            (\<exists>v rs'. rs' \<in> ?RS \<and> resolverCache st2 K = Some v \<and>
                     resolveDependencyReference e K rs' = Some v \<and>
                     (\<exists>d dep. K = pathResolve (workdir e) d dep))"
          then obtain v'' rs' where rs': "rs' \<in> ?RS" and v'': "resolverCache st2 K = Some v''"
            and r': "resolveDependencyReference e K rs' = Some v''" by blast
          from c v'' have "v'' = v'" by (simp add: cachedResolution_Some_iff)
          with rs' r' res only show ?thesis by auto
        qed
      qed
      from Cons.IH[OF i2 m w2] show ?thesis .
    qed
  qed
qed

text \<open>
  C9, as the claim states it, fails: in \<open>shadowEnv\<close> there is no \<^verbatim>\<open>foo.scss\<close> and
  there is a \<^verbatim>\<open>_foo.scss\<close>, but also a regular file named \<^verbatim>\<open>foo\<close>, and the reference
  resolves to that file; the partial is not in the closure.
\<close>

theorem partial_shadowed_counterexample:
  "\<not> existsAsFile shadowEnv ''/a/foo.scss'' \<and>
   existsAsFile shadowEnv ''/a/_foo.scss'' \<and>
   resolveDependencyReference shadowEnv
       (pathResolve (workdir shadowEnv) (dirname ''/a/theme.scss'') ''foo'')
       (resolvers scssSearchConfig) = Some ''/a/foo'' \<and>
   returned (getDependencies 3 defaultSearchConfig shadowEnv emptyState ''/a/theme.scss'')
     = Some [''/a/foo'']"
  by code_simp

text \<open>
  C9, amended. Let a stylesheet have a reference that is a plain name, say \<^verbatim>\<open>foo\<close>,
  and let its directory hold no regular file named \<^verbatim>\<open>foo\<close> itself and none named
  \<^verbatim>\<open>foo.scss\<close>, but a regular file \<^verbatim>\<open>_foo.scss\<close>. Then the stylesheet pipeline resolves
  the reference to the absolute path of \<^verbatim>\<open>_foo.scss\<close>; the loop, when it meets the
  reference with nothing cached for it, caches that path, adds it to the results and
  walks it; and when nothing else is cached for the candidate and no pipeline of the
  configuration resolves the candidate to another file, the path is a member of the
  set that the call on the stylesheet returns.
\<close>

theorem partial_resolution:
  fixes name f :: string and e :: env
  defines "K \<equiv> pathResolve (workdir e) (dirname f) name"
    and "P \<equiv> pathResolve (workdir e) (dirname f) (''_'' @ name @ ''.scss'')"
  assumes "plainName name"
    and "\<not> existsAsFile e K"
    and "\<not> existsAsFile e (pathResolve (workdir e) (dirname f) (name @ ''.scss''))"
    and "existsAsFile e P"
  shows "resolveDependencyReference e K (resolvers scssSearchConfig) = Some P \<and>
     (cachedResolution st K = None \<longrightarrow>
        walk n cfg e (dirname f) (resolvers scssSearchConfig) (name # deps) results st =
          (case getDependencies n cfg e (st\<lparr>resolverCache := (resolverCache st)(K \<mapsto> P)\<rparr>) P of
             Returns children st2 \<Rightarrow>
               walk n cfg e (dirname f) (resolvers scssSearchConfig) deps
                 (addAll children (setAdd P results)) st2
           | Throws err st2 \<Rightarrow> Throws err st2
           | Diverges \<Rightarrow> Diverges)) \<and>
     (extname f = ''.scss'' \<and> cfg ''.scss'' = Some scssSearchConfig \<and>
      loadDependencies scssSearchConfig e st f = Loaded deps st1 \<and> name \<in> set deps \<and>
      (\<forall>v. cachedResolution st K = Some v \<longrightarrow> v = P) \<and>
      (\<forall>ext v. resolveDependencyReference e K (pipeline cfg ext) = Some v \<longrightarrow> v = P) \<and>
      getDependencies m cfg e st f = Returns R st' \<longrightarrow> P \<in> set R)"
proof (intro conjI impI)
  show r: "resolveDependencyReference e K (resolvers scssSearchConfig) = Some P"
    unfolding K_def P_def using assms(3-6)[unfolded K_def P_def] by (rule partial_resolves)
  {
    assume "cachedResolution st K = None"
    then have "lookupOrResolve e (resolvers scssSearchConfig) st K
        = Some (P, st\<lparr>resolverCache := (resolverCache st)(K \<mapsto> P)\<rparr>)"
      using r by (simp add: lookupOrResolve_uncached)
    then show "walk n cfg e (dirname f) (resolvers scssSearchConfig) (name # deps) results st =
          (case getDependencies n cfg e (st\<lparr>resolverCache := (resolverCache st)(K \<mapsto> P)\<rparr>) P of
             Returns children st2 \<Rightarrow>
               walk n cfg e (dirname f) (resolvers scssSearchConfig) deps
                 (addAll children (setAdd P results)) st2
           | Throws err st2 \<Rightarrow> Throws err st2
           | Diverges \<Rightarrow> Diverges)"
      unfolding K_def by simp
  }
  assume a: "extname f = ''.scss'' \<and> cfg ''.scss'' = Some scssSearchConfig \<and>
      loadDependencies scssSearchConfig e st f = Loaded deps st1 \<and> name \<in> set deps \<and>
      (\<forall>v. cachedResolution st K = Some v \<longrightarrow> v = P) \<and>
      (\<forall>ext v. resolveDependencyReference e K (pipeline cfg ext) = Some v \<longrightarrow> v = P) \<and>
      getDependencies m cfg e st f = Returns R st'"
  then have lc: "configFor cfg (extname f) = scssSearchConfig" by (simp add: configFor_def)
  from a have ld: "loadDependencies scssSearchConfig e st f = Loaded deps st1"
    and gd: "getDependencies m cfg e st f = Returns R st'" by blast+
  from gd obtain m' where m: "m = Suc m'" by (cases m) auto
  from gd ld lc m have w: "walk m' cfg e (dirname f) (resolvers scssSearchConfig) deps [] st1
      = Returns R st'" by simp
  from ld have "resolverCache st1 = resolverCache st"
    by (auto simp: loadDependencies_def split: sum.splits option.splits)
  then have "cachedResolution st1 K = cachedResolution st K" by (simp add: cachedResolution_def)
  with a have inv: "\<forall>v. cachedResolution st1 K = Some v \<longrightarrow> v = P" by simp
  from a have only: "\<forall>ext v. resolveDependencyReference e K (pipeline cfg ext) = Some v \<longrightarrow> v = P"
    and mem: "name \<in> set deps" by blast+
  have Keq: "K = pathResolve (workdir e) (dirname f) name" by (simp add: K_def)
  show "P \<in> set R"
    by (rule walk_contains[OF inv only r Keq mem w])
qed

lemma default_pipelines:
  "pipeline defaultSearchConfig ext = resolvers jsSearchConfig \<or>
   pipeline defaultSearchConfig ext = resolvers scssSearchConfig \<or>
   pipeline defaultSearchConfig ext = []"
  by (simp add: pipeline_def configFor_def defaultSearchConfig_def)

theorem partial_resolution_witness:
  "plainName ''base'' \<and>
   \<not> existsAsFile themeEnv ''/p/base'' \<and>
   \<not> existsAsFile themeEnv ''/p/base.scss'' \<and>
   existsAsFile themeEnv ''/p/_base.scss'' \<and>
   resolveDependencyReference themeEnv ''/p/base'' (resolvers scssSearchConfig)
     = Some ''/p/_base.scss'' \<and>
   (\<exists>R st'. getDependencies 3 defaultSearchConfig themeEnv emptyState ''/p/theme.scss''
              = Returns R st' \<and> ''/p/_base.scss'' \<in> set R)"
proof -
  let ?f = "''/p/theme.scss''"
  have pr: "pathResolve (workdir themeEnv) (dirname ?f) ''base'' = ''/p/base''"
    "pathResolve (workdir themeEnv) (dirname ?f) (''base'' @ ''.scss'') = ''/p/base.scss''"
    "pathResolve (workdir themeEnv) (dirname ?f) (''_'' @ ''base'' @ ''.scss'') = ''/p/_base.scss''"
    by code_simp+
  have pn: "plainName ''base''" by code_simp
  have ex: "\<not> existsAsFile themeEnv ''/p/base''" "\<not> existsAsFile themeEnv ''/p/base.scss''"
    "existsAsFile themeEnv ''/p/_base.scss''"
    by code_simp+
  have rj: "resolveDependencyReference themeEnv ''/p/base'' (resolvers jsSearchConfig) = None"
    and rn: "resolveDependencyReference themeEnv ''/p/base'' [] = None"
    and rs: "resolveDependencyReference themeEnv ''/p/base'' (resolvers scssSearchConfig)
               = Some ''/p/_base.scss''"
    by code_simp+
  have only: "\<forall>ext v. resolveDependencyReference themeEnv ''/p/base''
                (pipeline defaultSearchConfig ext) = Some v \<longrightarrow> v = ''/p/_base.scss''"
    using default_pipelines rj rn rs by (metis option.distinct(1) option.inject)
  have "case loadDependencies scssSearchConfig themeEnv emptyState ?f of
          Loaded deps st1 \<Rightarrow> ''base'' \<in> set deps
        | LoadThrows err st1 \<Rightarrow> False
        | LoadDiverges \<Rightarrow> False"
    by code_simp
  then obtain deps st1 where
    ld: "loadDependencies scssSearchConfig themeEnv emptyState ?f = Loaded deps st1"
    and mem: "''base'' \<in> set deps"
    by (auto split: loaded.splits)
  have "case getDependencies 3 defaultSearchConfig themeEnv emptyState ?f of
          Returns R st' \<Rightarrow> True
        | Throws err st' \<Rightarrow> False
        | Diverges \<Rightarrow> False"
    by code_simp
  then obtain R st' where
    g: "getDependencies 3 defaultSearchConfig themeEnv emptyState ?f = Returns R st'"
    by (auto split: outcome.splits)
  have c: "\<forall>v. cachedResolution emptyState ''/p/base'' = Some v \<longrightarrow> v = ''/p/_base.scss''"
    by (simp add: cachedResolution_def emptyState_def)
  have x: "extname ?f = ''.scss''" by code_simp
  have x': "defaultSearchConfig ''.scss'' = Some scssSearchConfig"
    by (simp add: defaultSearchConfig_def)
  note t = partial_resolution[where name = "''base''" and f = ?f and e = themeEnv
      and cfg = defaultSearchConfig and st = emptyState and deps = deps and ?st1.0 = st1
      and m = 3 and R = R and st' = st', unfolded pr, OF pn ex]
  from t have "resolveDependencyReference themeEnv ''/p/base'' (resolvers scssSearchConfig)
     = Some ''/p/_base.scss''" by (rule conjunct1)
  moreover from t x x' ld mem c only g have "''/p/_base.scss'' \<in> set R" by blast
  ultimately show ?thesis using pn ex g by blast
qed

section \<open>The script patterns\<close>

declare rmatch.simps(8,9) [simp del]

lemma firstIs_append:
  "xs = [] \<or> hd xs = v \<Longrightarrow> ys = [] \<or> hd ys = v \<Longrightarrow> xs @ ys = [] \<or> hd (xs @ ys) = v"
  by (cases xs) auto

lemma firstIs_concat:
  "(\<forall>x \<in> set xs. f x = [] \<or> hd (f x) = v) \<Longrightarrow>
     concat (map f xs) = [] \<or> hd (concat (map f xs)) = v"
proof (induction xs)
  case Nil
  then show ?case by simp
next
  case (Cons a xs)
  then have "f a = [] \<or> hd (f a) = v"
    and "concat (map f xs) = [] \<or> hd (concat (map f xs)) = v" by auto
  then have "f a @ concat (map f xs) = [] \<or> hd (f a @ concat (map f xs)) = v"
    by (rule firstIs_append)
  then show ?case by simp
qed

lemma concat_map_nonempty: "x \<in> set xs \<Longrightarrow> f x \<noteq> [] \<Longrightarrow> concat (map f xs) \<noteq> []"
  by auto

text \<open>What a match leaves is a suffix of the input.\<close>

lemma rmatch_suffix:
  "m \<in> set (rmatch r b s c) \<Longrightarrow> \<exists>u. s = u @ fst m"
proof (induction r b s c arbitrary: m rule: rmatch.induct)
  case (1 b s c)
  then show ?case by simp
next
  case (2 b s c)
  then show ?case by (simp split: if_splits)
next
  case (3 l b s c)
  then have "take (length l) s = l" and "fst m = drop (length l) s"
    by (auto split: if_splits)
  then have "s = l @ fst m" by (metis append_take_drop_id)
  then show ?case by blast
next
  case (4 cs b s c)
  then show ?case by (cases s) (auto split: if_splits)
next
  case (5 cs b s c)
  then show ?case by (cases s) (auto split: if_splits)
next
  case (6 r1 r2 b s c)
  from "6.prems" obtain m1 where m1: "m1 \<in> set (rmatch r1 b s c)"
    and m: "m \<in> set (rmatch r2 (b \<and> length (fst m1) = length s) (fst m1) (snd m1))"
    by auto
  from "6.IH"(1)[OF m1] obtain u where u: "s = u @ fst m1" by blast
  from "6.IH"(2)[OF m1 m] obtain u' where "fst m1 = u' @ fst m" by blast
  with u have "s = (u @ u') @ fst m" by simp
  then show ?case by blast
next
  case (7 r1 r2 b s c)
  from "7.prems" have "m \<in> set (rmatch r1 b s c) \<or> m \<in> set (rmatch r2 b s c)" by simp
  then show ?case using "7.IH" by blast
next
  case (8 r b s c)
  from "8.prems" have "m = (s, c) \<or>
      (\<exists>m1 \<in> set (rmatch r b s c). length (fst m1) < length s \<and>
          m \<in> set (rmatch (Star r) False (fst m1) (snd m1)))"
    by (subst (asm) rmatch.simps(8)) (auto split: if_splits)
  then consider "m = (s, c)"
    | m1 where "m1 \<in> set (rmatch r b s c)" "length (fst m1) < length s"
        "m \<in> set (rmatch (Star r) False (fst m1) (snd m1))"
    by blast
  then show ?case
  proof cases
    case 1
    then show ?thesis by simp
  next
    case 2
    from "8.IH"(1)[OF 2(1)] obtain u where u: "s = u @ fst m1" by blast
    from "8.IH"(2)[OF 2(1,2,3)] obtain u' where "fst m1 = u' @ fst m" by blast
    with u have "s = (u @ u') @ fst m" by simp
    then show ?thesis by blast
  qed
next
  case (9 r b s c)
  from "9.prems" have "m = (s, c) \<or>
      (\<exists>m1 \<in> set (rmatch r b s c). length (fst m1) < length s \<and>
          m \<in> set (rmatch (LazyStar r) False (fst m1) (snd m1)))"
    by (subst (asm) rmatch.simps(9)) (auto split: if_splits)
  then consider "m = (s, c)"
    | m1 where "m1 \<in> set (rmatch r b s c)" "length (fst m1) < length s"
        "m \<in> set (rmatch (LazyStar r) False (fst m1) (snd m1))"
    by blast
  then show ?case
  proof cases
    case 1
    then show ?thesis by simp
  next
    case 2
    from "9.IH"(1)[OF 2(1)] obtain u where u: "s = u @ fst m1" by blast
    from "9.IH"(2)[OF 2(1,2,3)] obtain u' where "fst m1 = u' @ fst m" by blast
    with u have "s = (u @ u') @ fst m" by simp
    then show ?thesis by blast
  qed
next
  case (10 n r b s c)
  then show ?case by auto
qed

lemma rmatch_length: "m \<in> set (rmatch r b s c) \<Longrightarrow> length (fst m) \<le> length s"
  using rmatch_suffix[of m r b s c] by auto

lemma concat_map_concat:
  "concat (map f (concat xss)) = concat (map (\<lambda>xs. concat (map f xs)) xss)"
  by (induction xss) auto

text \<open>A lazy star before a pattern: the pattern here, or one step on and again.\<close>

lemma rmatch_lazy_seq:
  "rmatch (Seq (LazyStar r) D) b s c =
     rmatch D b s c @
     concat (map (\<lambda>m. if length (fst m) < length s
                       then rmatch (Seq (LazyStar r) D) False (fst m) (snd m) else [])
                 (rmatch r b s c))"
proof -
  let ?g = "\<lambda>m'. rmatch D (b \<and> length (fst m') = length s) (fst m') (snd m')"
  let ?h = "\<lambda>m. if length (fst m) < length s
                 then rmatch (LazyStar r) False (fst m) (snd m) else []"
  have inner: "concat (map ?g (?h m))
      = (if length (fst m) < length s
         then rmatch (Seq (LazyStar r) D) False (fst m) (snd m) else [])" for m
  proof (cases "length (fst m) < length s")
    case True
    have "?g m' = rmatch D (False \<and> length (fst m') = length (fst m)) (fst m') (snd m')"
      if "m' \<in> set (rmatch (LazyStar r) False (fst m) (snd m))" for m'
      using rmatch_length[OF that] True by simp
    then have "map ?g (rmatch (LazyStar r) False (fst m) (snd m))
        = map (\<lambda>m'. rmatch D (False \<and> length (fst m') = length (fst m)) (fst m') (snd m'))
              (rmatch (LazyStar r) False (fst m) (snd m))"
      by (intro map_cong[OF refl])
    then show ?thesis using True by (simp only: rmatch.simps(6) if_True)
  next
    case False
    then show ?thesis by simp
  qed
  have "rmatch (Seq (LazyStar r) D) b s c = concat (map ?g (rmatch (LazyStar r) b s c))"
    by (simp only: rmatch.simps(6))
  also have "rmatch (LazyStar r) b s c = (s, c) # concat (map ?h (rmatch r b s c))"
    by (rule rmatch.simps(9))
  also have "concat (map ?g ((s, c) # concat (map ?h (rmatch r b s c))))
      = rmatch D b s c @ concat (map (\<lambda>m. concat (map ?g (?h m))) (rmatch r b s c))"
    by (simp only: list.map concat.simps concat_map_concat fst_conv snd_conv simp_thms
          map_map comp_def)
  finally show ?thesis by (simp only: inner)
qed

lemma exec_first: "rmatch r b s Map.empty = m # ms \<Longrightarrow> exec r b s = Some m"
  by (cases s) simp_all

lemma exec_skip: "rmatch r b (x # xs) Map.empty = [] \<Longrightarrow> exec r b (x # xs) = exec r False xs"
  by simp

lemma exec_none: "(\<And>b' s'. rmatch r b' s' Map.empty = []) \<Longrightarrow> exec r b s = None"
  by (induction s arbitrary: b) simp_all

subsection \<open>Greedy runs of a character class\<close>

lemma star_class_first:
  assumes "\<forall>x \<in> set body. x \<notin> set cs" and "rest = [] \<or> hd rest \<in> set cs"
  shows "\<exists>ms. rmatch (Star (NoneOf cs)) b (body @ rest) c = (rest, c) # ms"
  using assms(1)
proof (induction body arbitrary: b)
  case Nil
  from assms(2) have "rmatch (NoneOf cs) b rest c = []" by (cases rest) auto
  then show ?case by (subst rmatch.simps(8)) simp
next
  case (Cons x body)
  then obtain ms where ms: "rmatch (Star (NoneOf cs)) False (body @ rest) c = (rest, c) # ms"
    by auto
  from Cons.prems have "rmatch (NoneOf cs) b ((x # body) @ rest) c = [(body @ rest, c)]" by simp
  then show ?case by (subst rmatch.simps(8)) (simp add: ms)
qed

lemma plus_class_first:
  assumes "body \<noteq> []" and "\<forall>x \<in> set body. x \<notin> set cs" and "rest = [] \<or> hd rest \<in> set cs"
  shows "\<exists>ms. rmatch (Plus (NoneOf cs)) b (body @ rest) c = (rest, c) # ms"
proof -
  from assms(1) obtain x body' where b: "body = x # body'" by (cases body) auto
  with assms(2) have "\<forall>x \<in> set body'. x \<notin> set cs" and x: "x \<notin> set cs" by auto
  from star_class_first[OF this(1) assms(3)] obtain ms where
    "rmatch (Star (NoneOf cs)) False (body' @ rest) c = (rest, c) # ms" by blast
  with x show ?thesis by (simp add: Plus_def b)
qed

lemma star_space_elems:
  "m \<in> set (rmatch (Star (OneOf cs)) b s c) \<Longrightarrow>
     snd m = c \<and> (\<exists>a. set a \<subseteq> set cs \<and> s = a @ fst m)"
proof (induction s arbitrary: b)
  case Nil
  then show ?case by (subst (asm) rmatch.simps(8)) simp
next
  case (Cons x xs)
  from Cons.prems have "m = (x # xs, c) \<or>
      (x \<in> set cs \<and> m \<in> set (rmatch (Star (OneOf cs)) False xs c))"
    by (subst (asm) rmatch.simps(8)) (auto split: if_splits)
  then show ?case
  proof
    assume "m = (x # xs, c)"
    then show ?thesis by simp
  next
    assume a: "x \<in> set cs \<and> m \<in> set (rmatch (Star (OneOf cs)) False xs c)"
    with Cons.IH obtain a' where "snd m = c" "set a' \<subseteq> set cs" "xs = a' @ fst m" by blast
    with a have "snd m = c \<and> set (x # a') \<subseteq> set cs \<and> x # xs = (x # a') @ fst m" by simp
    then show ?thesis by blast
  qed
qed

lemma star_contains_empty: "(s, c) \<in> set (rmatch (Star r) b s c)"
  by (subst rmatch.simps(8)) simp

subsection \<open>The quoted literal\<close>

lemma quotes_differ: "dquote \<noteq> squote"
  by (simp add: dquote_def squote_def)

lemma quotedRelative_first:
  assumes "q = dquote \<or> q = squote" and "body \<noteq> []" and "q \<notin> set body"
  shows "\<exists>ms. rmatch quotedRelative b (q # CHR ''.'' # body @ q # rest) c = (rest, c) # ms"
proof -
  have p: "\<exists>ms. rmatch (Plus (NoneOf [q])) b' (body @ q # rest) c = (q # rest, c) # ms" for b'
  proof (rule plus_class_first[OF assms(2)])
    show "\<forall>x \<in> set body. x \<notin> set [q]" using assms(3) by auto
    show "q # rest = [] \<or> hd (q # rest) \<in> set [q]" by simp
  qed
  from assms(1) show ?thesis
  proof
    assume q: "q = dquote"
    from p[of False] obtain ms where
      "rmatch (Plus (NoneOf [dquote])) False (body @ dquote # rest) c = (dquote # rest, c) # ms"
      unfolding q by blast
    then show ?thesis by (simp add: quotedRelative_def q)
  next
    assume q: "q = squote"
    from p[of False] obtain ms where
      "rmatch (Plus (NoneOf [squote])) False (body @ squote # rest) c = (squote # rest, c) # ms"
      unfolding q by blast
    then show ?thesis using quotes_differ by (simp add: quotedRelative_def q)
  qed
qed

lemma quotedRelative_needs_quote:
  "s = [] \<or> (hd s \<noteq> dquote \<and> hd s \<noteq> squote) \<Longrightarrow> rmatch quotedRelative b s c = []"
  by (cases s) (auto simp: quotedRelative_def)

subsection \<open>From the keyword to the literal\<close>

lemma literal_semicolon_first:
  assumes "q = dquote \<or> q = squote" and "body \<noteq> []" and "q \<notin> set body"
  shows "\<exists>ms. rmatch (Seq (Grp 1 quotedRelative) (Lit '';''))
                 b (q # CHR ''.'' # body @ q # CHR '';'' # post) c
              = (post, c(1 \<mapsto> q # CHR ''.'' # body @ [q])) # ms"
proof -
  let ?s = "q # CHR ''.'' # body @ q # CHR '';'' # post"
  from quotedRelative_first[OF assms, of b "CHR '';'' # post" c] obtain ms where
    m: "rmatch quotedRelative b ?s c = (CHR '';'' # post, c) # ms" by blast
  have "?s = (q # CHR ''.'' # body @ [q]) @ CHR '';'' # post" by simp
  then have "take (length ?s - length (CHR '';'' # post)) ?s = q # CHR ''.'' # body @ [q]"
    by (metis add_diff_cancel_right' append_eq_conv_conj length_append)
  then show ?thesis by (simp add: m)
qed

lemma literal_semicolon_needs_quote:
  "s = [] \<or> (hd s \<noteq> dquote \<and> hd s \<noteq> squote) \<Longrightarrow>
     rmatch (Seq (Grp 1 quotedRelative) (Lit '';'')) b s c = []"
  by (simp add: quotedRelative_needs_quote)

lemma rmatch_Any: "rmatch Any b (x # xs) c = [(xs, c)]" "rmatch Any b [] c = []"
  by (simp_all add: Any_def)

lemma lazy_scan:
  assumes "q = dquote \<or> q = squote" and "body \<noteq> []" and "q \<notin> set body"
  shows "quoteFree u \<Longrightarrow>
     \<exists>ms. rmatch (Seq (LazyStar Any) (Seq (Grp 1 quotedRelative) (Lit '';'')))
             b (u @ q # CHR ''.'' # body @ q # CHR '';'' # post) c
          = (post, c(1 \<mapsto> q # CHR ''.'' # body @ [q])) # ms"
proof (induction u arbitrary: b)
  case Nil
  from literal_semicolon_first[OF assms, of b post c] show ?case
    by (subst rmatch_lazy_seq) auto
next
  case (Cons x u)
  then have x: "x \<noteq> dquote \<and> x \<noteq> squote" and u: "quoteFree u"
    by (auto simp: quoteFree_def)
  from Cons.IH[OF u, of False] obtain ms where
    "rmatch (Seq (LazyStar Any) (Seq (Grp 1 quotedRelative) (Lit '';'')))
       False (u @ q # CHR ''.'' # body @ q # CHR '';'' # post) c
     = (post, c(1 \<mapsto> q # CHR ''.'' # body @ [q])) # ms" by blast
  moreover have "rmatch (Seq (Grp 1 quotedRelative) (Lit '';'')) b
      ((x # u) @ q # CHR ''.'' # body @ q # CHR '';'' # post) c = []"
    by (rule literal_semicolon_needs_quote) (simp add: x)
  ultimately show ?case
    by (subst rmatch_lazy_seq) (simp add: rmatch_Any del: rmatch.simps)
qed

lemma lazy_scan_none:
  "quoteFree s \<Longrightarrow>
     rmatch (Seq (LazyStar Any) (Seq (Grp 1 quotedRelative) (Lit '';''))) b s c = []"
proof (induction s arbitrary: b)
  case Nil
  have "rmatch (Seq (Grp 1 quotedRelative) (Lit '';'')) b [] c = []"
    by (rule literal_semicolon_needs_quote) simp
  then show ?case by (subst rmatch_lazy_seq) (simp add: rmatch_Any del: rmatch.simps)
next
  case (Cons x s)
  then have x: "x \<noteq> dquote \<and> x \<noteq> squote" and s: "quoteFree s"
    by (auto simp: quoteFree_def)
  have "rmatch (Seq (Grp 1 quotedRelative) (Lit '';'')) b (x # s) c = []"
    by (rule literal_semicolon_needs_quote) (simp add: x)
  with Cons.IH[OF s, of False] show ?case
    by (subst rmatch_lazy_seq) (simp add: rmatch_Any del: rmatch.simps)
qed

subsection \<open>Before the literal\<close>

lemma before_quote:
  "u @ q # t = a @ s1 \<Longrightarrow> q \<notin> set a \<Longrightarrow> \<exists>u'. u = a @ u' \<and> s1 = u' @ q # t"
proof (induction a arbitrary: u)
  case Nil
  then show ?case by simp
next
  case (Cons x a)
  then obtain u0 where u: "u = x # u0" by (cases u) auto
  with Cons.prems have "u0 @ q # t = a @ s1" "q \<notin> set a" by auto
  from Cons.IH[OF this] u show ?case by auto
qed

text \<open>\<open>upTo L s\<close>: \<open>s\<close> is what is left of the input before the end of a text with no quote
  character that is followed by \<open>L\<close>.\<close>

lemma upTo_step:
  assumes "quoteFree u" and "s = u @ q # t" and "q = dquote \<or> q = squote"
    and "s = a @ s1" and "quoteFree a"
  shows "\<exists>u'. quoteFree u' \<and> s1 = u' @ q # t"
proof -
  from assms(3,5) have "q \<notin> set a" by (auto simp: quoteFree_def)
  from before_quote[of u q t a s1] assms(2,4) this obtain u' where
    "u = a @ u'" "s1 = u' @ q # t" by auto
  with assms(1) show ?thesis by (auto simp: quoteFree_def)
qed

lemma lineStart_elems:
  assumes "m \<in> set (rmatch lineStart b s c)"
  shows "snd m = c \<and> (\<exists>a. quoteFree a \<and> s = a @ fst m)"
proof -
  from assms have "m = (s, c) \<or>
      (\<exists>x xs. s = x # xs \<and> (x = CHR 0x0D \<or> x = CHR 0x0A) \<and> m = (xs, c))"
    by (cases s) (auto simp: lineStart_def split: if_splits)
  then show ?thesis
  proof
    assume "m = (s, c)"
    then have "snd m = c \<and> quoteFree [] \<and> s = [] @ fst m" by (simp add: quoteFree_def)
    then show ?thesis by blast
  next
    assume "\<exists>x xs. s = x # xs \<and> (x = CHR 0x0D \<or> x = CHR 0x0A) \<and> m = (xs, c)"
    then obtain x xs where "s = x # xs" "x = CHR 0x0D \<or> x = CHR 0x0A" "m = (xs, c)" by blast
    then have "snd m = c \<and> quoteFree [x] \<and> s = [x] @ fst m"
      by (auto simp: quoteFree_def dquote_def squote_def)
    then show ?thesis by blast
  qed
qed

lemma lit_elems:
  assumes "m \<in> set (rmatch (Lit l) b s c)"
  shows "snd m = c \<and> s = l @ fst m"
proof -
  from assms have t: "take (length l) s = l" and m: "m = (drop (length l) s, c)"
    by (auto split: if_splits)
  from t have "s = l @ drop (length l) s" using append_take_drop_id[of "length l" s] by simp
  with m show ?thesis by simp
qed

lemma keyword_elems:
  assumes "m \<in> set (rmatch (Alt (Lit ''import'') (Lit ''export'')) b s c)"
  shows "snd m = c \<and> (\<exists>a. quoteFree a \<and> s = a @ fst m)"
proof -
  from assms have "m \<in> set (rmatch (Lit ''import'') b s c) \<or>
      m \<in> set (rmatch (Lit ''export'') b s c)"
    by (simp del: rmatch.simps(3))
  then have "snd m = c \<and> (s = ''import'' @ fst m \<or> s = ''export'' @ fst m)"
    using lit_elems by blast
  moreover have "quoteFree ''import''" "quoteFree ''export''"
    by (simp_all add: quoteFree_def dquote_def squote_def)
  ultimately show ?thesis by blast
qed

lemma spaces_quoteFree:
  assumes "set a \<subseteq> set spaceChars"
  shows "quoteFree a"
proof -
  have "dquote \<notin> set spaceChars" "squote \<notin> set spaceChars"
    by (simp_all add: spaceChars_def dquote_def squote_def)
  with assms show ?thesis unfolding quoteFree_def by blast
qed

lemma plus_space_elems:
  "m \<in> set (rmatch (Plus Space) b s c) \<Longrightarrow> snd m = c \<and> (\<exists>a. quoteFree a \<and> s = a @ fst m)"
proof -
  assume "m \<in> set (rmatch (Plus Space) b s c)"
  then obtain x xs where s: "s = x # xs" and x: "x \<in> set spaceChars"
    and m: "m \<in> set (rmatch (Star (OneOf spaceChars)) False xs c)"
    by (cases s) (auto simp: Plus_def Space_def split: if_splits)
  from star_space_elems[OF m] obtain a where
    "snd m = c" "set a \<subseteq> set spaceChars" "xs = a @ fst m" by blast
  with s x have "snd m = c \<and> set (x # a) \<subseteq> set spaceChars \<and> s = (x # a) @ fst m" by simp
  then show ?thesis using spaces_quoteFree by blast
qed

subsection \<open>The first stage on a statement\<close>

declare rmatch.simps [simp del]

lemma seq_first:
  assumes elems: "\<And>m b s c. m \<in> set (rmatch P b s c) \<Longrightarrow>
                    snd m = c \<and> (\<exists>a. quoteFree a \<and> s = a @ fst m)"
    and cont: "\<And>u b. quoteFree u \<Longrightarrow>
                 rmatch R b (u @ q # t) c0 = [] \<or> hd (rmatch R b (u @ q # t) c0) = v"
    and q: "q = dquote \<or> q = squote" and u: "quoteFree u"
  shows "rmatch (Seq P R) b (u @ q # t) c0 = [] \<or> hd (rmatch (Seq P R) b (u @ q # t) c0) = v"
proof -
  let ?s = "u @ q # t"
  let ?f = "\<lambda>m. rmatch R (b \<and> length (fst m) = length ?s) (fst m) (snd m)"
  have "\<forall>m \<in> set (rmatch P b ?s c0). ?f m = [] \<or> hd (?f m) = v"
  proof
    fix m assume m: "m \<in> set (rmatch P b ?s c0)"
    from elems[OF m] obtain a where c: "snd m = c0" and a: "quoteFree a" "?s = a @ fst m"
      by blast
    from upTo_step[OF u refl q a(2) a(1)] obtain u' where
      "quoteFree u'" "fst m = u' @ q # t" by blast
    with cont[of u'] c show "?f m = [] \<or> hd (?f m) = v" by simp
  qed
  then have "concat (map ?f (rmatch P b ?s c0)) = [] \<or>
      hd (concat (map ?f (rmatch P b ?s c0))) = v"
    by (rule firstIs_concat)
  then show ?thesis by (simp only: rmatch.simps(6))
qed

lemma quoteFree_suffix: "quoteFree (a @ s) \<Longrightarrow> quoteFree s"
  by (simp add: quoteFree_def)

lemma seq_none:
  assumes cont: "\<And>s b c. quoteFree s \<Longrightarrow> rmatch R b s c = []" and s: "quoteFree s"
  shows "rmatch (Seq P R) b s c = []"
proof -
  have "rmatch R b' (fst m) (snd m) = []" if "m \<in> set (rmatch P b s c)" for m b'
  proof -
    from rmatch_suffix[OF that] obtain a where "s = a @ fst m" by blast
    with s have "quoteFree (fst m)" using quoteFree_suffix by metis
    then show ?thesis by (rule cont)
  qed
  then show ?thesis by (simp only: rmatch.simps(6)) simp
qed

lemma jsImportPattern_seq:
  "jsImportPattern =
     Seq lineStart (Seq (Alt (Lit ''import'') (Lit ''export''))
       (Seq (Plus Space) (Seq (LazyStar Any) (Seq (Grp 1 quotedRelative) (Lit '';'')))))"
  by (simp add: jsImportPattern_def)

lemma jsImport_first:
  assumes q: "q = dquote \<or> q = squote" and body: "body \<noteq> []" "q \<notin> set body"
    and u: "quoteFree u"
  shows "rmatch jsImportPattern b (u @ q # CHR ''.'' # body @ q # CHR '';'' # post) Map.empty = [] \<or>
         hd (rmatch jsImportPattern b (u @ q # CHR ''.'' # body @ q # CHR '';'' # post) Map.empty)
           = (post, [1 \<mapsto> q # CHR ''.'' # body @ [q]])"
proof -
  let ?t = "CHR ''.'' # body @ q # CHR '';'' # post"
  let ?v = "(post, [1 \<mapsto> q # CHR ''.'' # body @ [q]])"
  let ?C = "Seq (LazyStar Any) (Seq (Grp 1 quotedRelative) (Lit '';''))"
  have c0: "rmatch ?C b (u @ q # ?t) Map.empty = [] \<or> hd (rmatch ?C b (u @ q # ?t) Map.empty) = ?v"
    if "quoteFree u" for u b
    using lazy_scan[OF q body that, of b post Map.empty] by auto
  have c1: "rmatch (Seq (Plus Space) ?C) b (u @ q # ?t) Map.empty = [] \<or>
            hd (rmatch (Seq (Plus Space) ?C) b (u @ q # ?t) Map.empty) = ?v"
    if "quoteFree u" for u b
    by (rule seq_first[OF plus_space_elems c0 q that])
  have c2: "rmatch (Seq (Alt (Lit ''import'') (Lit ''export'')) (Seq (Plus Space) ?C))
              b (u @ q # ?t) Map.empty = [] \<or>
            hd (rmatch (Seq (Alt (Lit ''import'') (Lit ''export'')) (Seq (Plus Space) ?C))
              b (u @ q # ?t) Map.empty) = ?v"
    if "quoteFree u" for u b
    by (rule seq_first[OF keyword_elems c1 q that])
  show ?thesis
    unfolding jsImportPattern_seq
    by (rule seq_first[OF lineStart_elems c2 q u])
qed

lemma jsImport_none: "quoteFree s \<Longrightarrow> rmatch jsImportPattern b s c = []"
  unfolding jsImportPattern_seq
  by (intro seq_none lazy_scan_none)

lemma seq_nonempty:
  assumes "m \<in> set (rmatch P b s c)"
    and "rmatch R (b \<and> length (fst m) = length s) (fst m) (snd m) \<noteq> []"
  shows "rmatch (Seq P R) b s c \<noteq> []"
proof -
  have "concat (map (\<lambda>m. rmatch R (b \<and> length (fst m) = length s) (fst m) (snd m))
          (rmatch P b s c)) \<noteq> []"
    using assms by (rule concat_map_nonempty)
  then show ?thesis by (simp add: rmatch.simps(6))
qed

lemma jsImport_anchor:
  assumes q: "q = dquote \<or> q = squote" and body: "body \<noteq> []" "q \<notin> set body"
    and x0: "(x0 = [] \<and> b) \<or> x0 = [CHR 0x0D] \<or> x0 = [CHR 0x0A]"
    and kw: "kw = ''import'' \<or> kw = ''export''"
    and ws: "ws \<noteq> []" "set ws \<subseteq> set spaceChars"
    and mid: "quoteFree mid"
  shows "rmatch jsImportPattern b
           (x0 @ kw @ ws @ mid @ q # CHR ''.'' # body @ q # CHR '';'' # post) Map.empty \<noteq> []"
proof -
  let ?L = "q # CHR ''.'' # body @ q # CHR '';'' # post"
  let ?C = "Seq (LazyStar Any) (Seq (Grp 1 quotedRelative) (Lit '';''))"
  let ?c = "Map.empty :: captures"
  from ws obtain w ws' where w: "ws = w # ws'" "w \<in> set spaceChars" "set ws' \<subseteq> set spaceChars"
    by (cases ws) auto
  have qf: "quoteFree (ws' @ mid)"
    using spaces_quoteFree[OF w(3)] mid by (simp add: quoteFree_def)
  have n3: "rmatch ?C b' (ws' @ mid @ ?L) ?c \<noteq> []" for b'
    using lazy_scan[OF q body qf, of b' post ?c] by auto
  have m3: "(ws' @ mid @ ?L, ?c) \<in> set (rmatch (Plus Space) b' (ws @ mid @ ?L) ?c)" for b'
    using w star_contains_empty[of "ws' @ mid @ ?L" ?c "OneOf spaceChars" False]
    by (simp add: Plus_def Space_def rmatch.simps(4,6))
  have n2: "rmatch (Seq (Plus Space) ?C) b' (ws @ mid @ ?L) ?c \<noteq> []" for b'
    by (rule seq_nonempty[OF m3]) (simp only: fst_conv snd_conv n3 not_False_eq_True)
  have m2: "(ws @ mid @ ?L, ?c) \<in> set (rmatch (Alt (Lit ''import'') (Lit ''export'')) b'
              (kw @ ws @ mid @ ?L) ?c)" for b'
    using kw by (auto simp: rmatch.simps(3,7))
  have n1: "rmatch (Seq (Alt (Lit ''import'') (Lit ''export'')) (Seq (Plus Space) ?C)) b'
              (kw @ ws @ mid @ ?L) ?c \<noteq> []" for b'
    by (rule seq_nonempty[OF m2]) (simp only: fst_conv snd_conv n2 not_False_eq_True)
  have m1: "(kw @ ws @ mid @ ?L, ?c) \<in> set (rmatch lineStart b (x0 @ kw @ ws @ mid @ ?L) ?c)"
    using x0 by (auto simp: lineStart_def rmatch.simps(2,4,7))
  show ?thesis
    unfolding jsImportPattern_seq
    by (rule seq_nonempty[OF m1]) (simp only: fst_conv snd_conv n1 not_False_eq_True)
qed

subsection \<open>The loop of the first stage\<close>

declare execLoop.simps [simp del]

lemma exec_scan:
  assumes first: "\<And>k b'. k \<le> length p \<Longrightarrow>
                    rmatch r b' (drop k p @ s) Map.empty = [] \<or>
                    hd (rmatch r b' (drop k p @ s) Map.empty) = v"
    and hit: "rmatch r (b \<and> p = []) s Map.empty \<noteq> []"
  shows "exec r b (p @ s) = Some v"
  using assms
proof (induction p arbitrary: b)
  case Nil
  from Nil(1)[of 0 b] Nil(2) obtain ms where "rmatch r b s Map.empty = v # ms"
    by (cases "rmatch r b s Map.empty") auto
  then show ?case using exec_first by simp
next
  case (Cons x p)
  show ?case
  proof (cases "rmatch r b (x # p @ s) Map.empty")
    case Nil
    have "exec r False (p @ s) = Some v"
    proof (rule Cons.IH)
      fix k b' assume "k \<le> length p"
      then show "rmatch r b' (drop k p @ s) Map.empty = [] \<or>
                 hd (rmatch r b' (drop k p @ s) Map.empty) = v"
        using Cons.prems(1)[of "Suc k" b'] by simp
    next
      from Cons.prems(2) show "rmatch r (False \<and> p = []) s Map.empty \<noteq> []" by simp
    qed
    with Nil show ?thesis by simp
  next
    case (Cons m ms)
    with Cons.prems(1)[of 0 b] have "m = v" by simp
    with Cons show ?thesis using exec_first[of r b "(x # p) @ s" m ms] by simp
  qed
qed

lemma exec_quoteFree: "quoteFree s \<Longrightarrow> exec jsImportPattern b s = None"
proof (induction s arbitrary: b)
  case Nil
  then show ?case by (simp add: jsImport_none)
next
  case (Cons x s)
  then have "quoteFree s" by (simp add: quoteFree_def)
  with Cons show ?case by (simp add: jsImport_none)
qed

lemma execLoop_quoteFree: "quoteFree s \<Longrightarrow> execLoop jsImportPattern b s = Some []"
  by (subst execLoop.simps) (simp add: exec_quoteFree)

lemma groupCount_jsImportPattern: "groupCount jsImportPattern = 1"
  by (simp add: jsImportPattern_def quotedRelative_def lineStart_def Plus_def Space_def Any_def)

lemma groupCount_jsUnquotePattern: "groupCount jsUnquotePattern = 2"
  by (simp add: jsUnquotePattern_def Plus_def)

lemma jsImport_exec:
  assumes q: "q = dquote \<or> q = squote" and body: "body \<noteq> []" "q \<notin> set body"
    and anchor: "(pre = [] \<and> b) \<or> (pre \<noteq> [] \<and> (last pre = CHR 0x0D \<or> last pre = CHR 0x0A))"
    and kw: "kw = ''import'' \<or> kw = ''export''"
    and ws: "ws \<noteq> []" "set ws \<subseteq> set spaceChars"
    and qf: "quoteFree pre" "quoteFree mid"
  shows "exec jsImportPattern b
           (pre @ kw @ ws @ mid @ q # CHR ''.'' # body @ q # CHR '';'' # post)
         = Some (post, [1 \<mapsto> q # CHR ''.'' # body @ [q]])"
proof -
  let ?L = "q # CHR ''.'' # body @ q # CHR '';'' # post"
  let ?v = "(post, [1 \<mapsto> q # CHR ''.'' # body @ [q]])"
  have kwq: "quoteFree kw" using kw by (auto simp: quoteFree_def dquote_def squote_def)
  have wsq: "quoteFree ws" by (rule spaces_quoteFree[OF ws(2)])
  have first: "rmatch jsImportPattern b' (u @ kw @ ws @ mid @ ?L) Map.empty = [] \<or>
      hd (rmatch jsImportPattern b' (u @ kw @ ws @ mid @ ?L) Map.empty) = ?v"
    if "quoteFree u" for u b'
  proof -
    from that kwq wsq qf(2) have "quoteFree (u @ kw @ ws @ mid)" by (simp add: quoteFree_def)
    from jsImport_first[OF q body this, of b' post] show ?thesis by simp
  qed
  from anchor show ?thesis
  proof
    assume a: "pre = [] \<and> b"
    have "exec jsImportPattern b ([] @ kw @ ws @ mid @ ?L) = Some ?v"
    proof (rule exec_scan)
      fix k b' assume "k \<le> length ([] :: string)"
      then show "rmatch jsImportPattern b' (drop k [] @ kw @ ws @ mid @ ?L) Map.empty = [] \<or>
          hd (rmatch jsImportPattern b' (drop k [] @ kw @ ws @ mid @ ?L) Map.empty) = ?v"
        using first[of "[]" b'] by (simp add: quoteFree_def)
    next
      from jsImport_anchor[OF q body _ kw ws qf(2), of "[]" b post] a
      show "rmatch jsImportPattern (b \<and> ([] :: string) = []) (kw @ ws @ mid @ ?L) Map.empty \<noteq> []"
        by simp
    qed
    with a show ?thesis by simp
  next
    assume a: "pre \<noteq> [] \<and> (last pre = CHR 0x0D \<or> last pre = CHR 0x0A)"
    then obtain p x where pre: "pre = p @ [x]" and x: "x = CHR 0x0D \<or> x = CHR 0x0A"
      by (cases pre rule: rev_cases) auto
    have "exec jsImportPattern b (p @ ([x] @ kw @ ws @ mid @ ?L)) = Some ?v"
    proof (rule exec_scan)
      fix k b' assume "k \<le> length p"
      have "quoteFree (drop k p @ [x])"
        using qf(1) pre by (auto simp: quoteFree_def dest: in_set_dropD)
      from first[OF this, of b']
      show "rmatch jsImportPattern b' (drop k p @ [x] @ kw @ ws @ mid @ ?L) Map.empty = [] \<or>
          hd (rmatch jsImportPattern b' (drop k p @ [x] @ kw @ ws @ mid @ ?L) Map.empty) = ?v"
        by simp
    next
      from x have "([x] = [] \<and> (b \<and> p = [])) \<or> [x] = [CHR 0x0D] \<or> [x] = [CHR 0x0A]" by simp
      from jsImport_anchor[OF q body this kw ws qf(2), of post]
      show "rmatch jsImportPattern (b \<and> p = []) ([x] @ kw @ ws @ mid @ ?L) Map.empty \<noteq> []" .
    qed
    then show ?thesis by (simp add: pre)
  qed
qed

lemma jsImport_execLoop:
  assumes q: "q = dquote \<or> q = squote" and body: "body \<noteq> []" "q \<notin> set body"
    and anchor: "(pre = [] \<and> b) \<or> (pre \<noteq> [] \<and> (last pre = CHR 0x0D \<or> last pre = CHR 0x0A))"
    and kw: "kw = ''import'' \<or> kw = ''export''"
    and ws: "ws \<noteq> []" "set ws \<subseteq> set spaceChars"
    and qf: "quoteFree pre" "quoteFree mid"
  shows "execLoop jsImportPattern b
           (pre @ kw @ ws @ mid @ q # CHR ''.'' # body @ q # CHR '';'' # post)
         = map_option (\<lambda>found. (q # CHR ''.'' # body @ [q]) # found)
             (execLoop jsImportPattern False post)"
proof -
  have m: "matchGroups jsImportPattern [Suc 0 \<mapsto> q # CHR ''.'' # body @ [q]]
      = [q # CHR ''.'' # body @ [q]]"
    by (simp add: matchGroups_def groupCount_jsImportPattern)
  have a: "(@) [x] = (#) x" for x :: string by auto
  show ?thesis
    by (subst execLoop.simps) (simp add: jsImport_exec[OF assms] m a)
qed

subsection \<open>The second stage\<close>

lemma unquote_alternative_first:
  assumes "x \<noteq> []" and "q \<notin> set x"
  shows "\<exists>ms. rmatch (Seq (Lit [q]) (Seq (Grp g (Plus (NoneOf [q]))) (Lit [q])))
                 b (q # x @ [q]) c
              = ([], c(g \<mapsto> x)) # ms"
proof -
  have "\<exists>ms. rmatch (Plus (NoneOf [q])) False (x @ [q]) c = ([q], c) # ms"
  proof (rule plus_class_first[OF assms(1)])
    show "\<forall>y \<in> set x. y \<notin> set [q]" using assms(2) by auto
    show "[q] = [] \<or> hd [q] \<in> set [q]" by simp
  qed
  then obtain ms where "rmatch (Plus (NoneOf [q])) False (x @ [q]) c = ([q], c) # ms" by blast
  then show ?thesis by (simp add: rmatch.simps(3,6,10))
qed

lemma jsUnquotePattern_alt:
  "jsUnquotePattern =
     Alt (Seq (Lit [dquote]) (Seq (Grp 1 (Plus (NoneOf [dquote]))) (Lit [dquote])))
         (Seq (Lit [squote]) (Seq (Grp 2 (Plus (NoneOf [squote]))) (Lit [squote])))"
  by (simp add: jsUnquotePattern_def)

lemma jsUnquote_exec:
  assumes q: "q = dquote \<or> q = squote" and x: "x \<noteq> []" "q \<notin> set x"
  shows "exec jsUnquotePattern b (q # x @ [q])
           = Some ([], [(if q = dquote then 1 else 2) \<mapsto> x])"
proof -
  from q have "\<exists>ms. rmatch jsUnquotePattern b (q # x @ [q]) Map.empty
      = ([], [(if q = dquote then 1 else 2) \<mapsto> x]) # ms"
  proof
    assume d: "q = dquote"
    from unquote_alternative_first[OF x, of 1 b Map.empty] obtain ms where
      "rmatch (Seq (Lit [dquote]) (Seq (Grp 1 (Plus (NoneOf [dquote]))) (Lit [dquote])))
         b (dquote # x @ [dquote]) Map.empty = ([], [1 \<mapsto> x]) # ms"
      unfolding d by blast
    then show ?thesis unfolding jsUnquotePattern_alt d by (simp add: rmatch.simps(7))
  next
    assume s: "q = squote"
    from unquote_alternative_first[OF x, of 2 b Map.empty] obtain ms where
      "rmatch (Seq (Lit [squote]) (Seq (Grp 2 (Plus (NoneOf [squote]))) (Lit [squote])))
         b (squote # x @ [squote]) Map.empty = ([], [2 \<mapsto> x]) # ms"
      unfolding s by blast
    moreover have "rmatch (Seq (Lit [dquote]) R) b (squote # x @ [squote]) Map.empty = []" for R
      using quotes_differ by (simp add: rmatch.simps(3,6))
    ultimately show ?thesis
      unfolding jsUnquotePattern_alt s using quotes_differ by (simp add: rmatch.simps(7))
  qed
  then show ?thesis using exec_first by blast
qed

lemma jsUnquote_execLoop:
  assumes q: "q = dquote \<or> q = squote" and x: "x \<noteq> []" "q \<notin> set x"
  shows "execLoop jsUnquotePattern b (q # x @ [q]) = Some [x]"
proof -
  have e: "execLoop jsUnquotePattern False [] = Some []"
    by (subst execLoop.simps) (simp add: jsUnquotePattern_alt rmatch.simps(3,6,7))
  have g: "matchGroups jsUnquotePattern [(if q = dquote then 1 else 2) \<mapsto> x] = [x]"
    using x(1) by (simp add: matchGroups_def groupCount_jsUnquotePattern upt_rec)
  show ?thesis
    by (subst execLoop.simps)
       (simp add: jsUnquote_exec[OF assms] e g del: fun_upd_apply exec.simps)
qed

subsection \<open>The script pipeline\<close>

text \<open>
  What the two stages do extract. Take an import or export statement that starts the
  input or follows a line break, whose keyword is followed by whitespace, whose text up
  to the literal holds no quote character, and whose literal is a dot and at least one
  more character between two single or two double quotes, with the statement separator
  right after it; and let the text before the statement, from the place where the
  search starts, hold no quote character. Then the loop of the first stage finds the
  quoted literal of the statement as its first match and goes on with the text after
  the separator; the second stage unwraps the literal, whichever of the two delimiters
  it has; and when the text after the statement holds no quote character either, the
  two stages give exactly the unquoted path.
\<close>

lemma script_import_extraction:
  assumes "q = dquote \<or> q = squote" and "body \<noteq> []" and "q \<notin> set body"
    and "(pre = [] \<and> b) \<or> (pre \<noteq> [] \<and> (last pre = CHR 0x0D \<or> last pre = CHR 0x0A))"
    and "kw = ''import'' \<or> kw = ''export''"
    and "ws \<noteq> []" and "set ws \<subseteq> set spaceChars"
    and "quoteFree pre" and "quoteFree mid"
  shows "execLoop jsImportPattern b
           (pre @ kw @ ws @ mid @ q # CHR ''.'' # body @ q # CHR '';'' # post)
         = map_option (\<lambda>found. (q # CHR ''.'' # body @ [q]) # found)
             (execLoop jsImportPattern False post) \<and>
     execLoop jsUnquotePattern True (q # CHR ''.'' # body @ [q]) = Some [CHR ''.'' # body] \<and>
     (b \<and> quoteFree post \<longrightarrow>
        runParsers (parsers jsSearchConfig)
          [pre @ kw @ ws @ mid @ q # CHR ''.'' # body @ q # CHR '';'' # post]
        = Some [CHR ''.'' # body])"
proof (intro conjI impI)
  show 1: "execLoop jsImportPattern b
           (pre @ kw @ ws @ mid @ q # CHR ''.'' # body @ q # CHR '';'' # post)
         = map_option (\<lambda>found. (q # CHR ''.'' # body @ [q]) # found)
             (execLoop jsImportPattern False post)"
    using assms by (rule jsImport_execLoop)
  have "q \<noteq> CHR ''.''" using assms(1) by (auto simp: dquote_def squote_def)
  with assms(3) have "q \<notin> set (CHR ''.'' # body)" by simp
  from jsUnquote_execLoop[OF assms(1) _ this, of True]
  show 2: "execLoop jsUnquotePattern True (q # CHR ''.'' # body @ [q]) = Some [CHR ''.'' # body]"
    by simp
  assume "b \<and> quoteFree post"
  then have b: b and "execLoop jsImportPattern False post = Some []"
    by (simp_all add: execLoop_quoteFree)
  with 1 have "execLoop jsImportPattern True
           (pre @ kw @ ws @ mid @ q # CHR ''.'' # body @ q # CHR '';'' # post)
         = Some [q # CHR ''.'' # body @ [q]]" by simp
  with 2 show "runParsers (parsers jsSearchConfig)
          [pre @ kw @ ws @ mid @ q # CHR ''.'' # body @ q # CHR '';'' # post]
        = Some [CHR ''.'' # body]"
    by (simp add: jsSearchConfig_def)
qed

lemma script_import_extraction_example:
  "quoteFree (''// tools'' @ [CHR 0x0A]) \<and> quoteFree ''{ x } from '' \<and>
   set '' '' \<subseteq> set spaceChars \<and>
   runParsers (parsers jsSearchConfig)
     [''// tools'' @ [CHR 0x0A] @ ''import { x } from '' @ [dquote] @ ''./util'' @ [dquote] @ '';''
        @ [CHR 0x0A]]
     = Some [''./util''] \<and>
   execLoop jsUnquotePattern True ([squote] @ ''./util'' @ [squote]) = Some [''./util'']"
proof -
  have h: "quoteFree (''// tools'' @ [CHR 0x0A])" "quoteFree ''{ x } from ''"
    "set '' '' \<subseteq> set spaceChars" "quoteFree [CHR 0x0A]"
    by (simp_all add: quoteFree_def dquote_def squote_def spaceChars_def)
  have d: "dquote \<notin> set ''/util''" "squote \<notin> set ''/util''"
    by (simp_all add: dquote_def squote_def)
  from script_import_extraction[where q = dquote and body = "''/util''" and b = True
      and pre = "''// tools'' @ [CHR 0x0A]" and kw = "''import''" and ws = "'' ''"
      and mid = "''{ x } from ''" and post = "[CHR 0x0A]"] h d
  have a: "runParsers (parsers jsSearchConfig)
     [''// tools'' @ [CHR 0x0A] @ ''import { x } from '' @ [dquote] @ ''./util'' @ [dquote] @ '';''
        @ [CHR 0x0A]]
     = Some [''./util'']"
    by simp
  from script_import_extraction[where q = squote and body = "''/util''" and b = True
      and pre = "[]" and kw = "''import''" and ws = "'' ''" and mid = "[]" and post = "[]"] h d
  have b: "execLoop jsUnquotePattern True ([squote] @ ''./util'' @ [squote]) = Some [''./util'']"
    by (simp add: quoteFree_def)
  from a b h show ?thesis by simp
qed

text \<open>
  C8. The claim is right and the code misses it: the comment on the first script
  pattern says that it matches any un-commented import or export statement that
  mentions a local path, but the pattern asks for the start of the input or a line
  break directly before the keyword. An import statement that is indented, and one
  that follows another statement on its line, reference a relative path literal that
  the statement separator ends, are not commented out, and the first stage matches
  neither: the indented script of \<open>indentedEnv\<close> gets the empty set, the same
  statement without the indentation gets the imported script.
\<close>

theorem script_pattern_misses_indented_import:
  "runParsers (parsers jsSearchConfig)
     [''  import a from '' @ [squote] @ ''./a'' @ [squote] @ '';''] = Some [] \<and>
   runParsers (parsers jsSearchConfig)
     [''import a from '' @ [squote] @ ''./a'' @ [squote] @ '';''] = Some [''./a''] \<and>
   runParsers (parsers jsSearchConfig)
     [''import a from '' @ [squote] @ ''./a'' @ [squote] @ ''; import b from ''
        @ [squote] @ ''./b'' @ [squote] @ '';''] = Some [''./a''] \<and>
   returned (getDependencies 3 defaultSearchConfig indentedEnv emptyState ''/a/main.js'')
     = Some [] \<and>
   returned (getDependencies 3 defaultSearchConfig indentedEnv emptyState ''/a/flush.js'')
     = Some [''/a/a.js'']"
  by code_simp

section \<open>Caches shared between resolvers\<close>

text \<open>
  C10. The caches are one state that every \<open>getDependencies\<close> takes and returns,
  whatever its search configuration, and their keys name no configuration. For the
  script of \<open>twinEnv\<close>, the resolver that tries \<^verbatim>\<open>.mjs\<close> first returns \<^verbatim>\<open>util.mjs\<close> on
  empty caches, and \<^verbatim>\<open>util.js\<close>, the resolution of the default resolver, after a call
  of the default resolver on the same unchanged file; the resolver that takes every
  quoted literal returns both files on empty caches, and after that call only the one
  reference that the default parsers extracted.
\<close>

theorem caches_shared_between_resolvers:
  "returned (getDependencies 3 mjsFirstConfig twinEnv emptyState ''/a/main.js'')
     = Some [''/a/util.mjs''] \<and>
   (case getDependencies 3 defaultSearchConfig twinEnv emptyState ''/a/main.js'' of
      Returns results st \<Rightarrow>
        results = [''/a/util.js''] \<and>
        returned (getDependencies 3 mjsFirstConfig twinEnv st ''/a/main.js'') = Some [''/a/util.js'']
    | Throws err st \<Rightarrow> False
    | Diverges \<Rightarrow> False) \<and>
   returned (getDependencies 3 everyLiteralConfig strayTwinEnv emptyState ''/a/main.js'')
     = Some [''/a/util.js'', ''/a/util.mjs''] \<and>
   (case getDependencies 3 defaultSearchConfig strayTwinEnv emptyState ''/a/main.js'' of
      Returns results st \<Rightarrow>
        results = [''/a/util.js''] \<and>
        returned (getDependencies 3 everyLiteralConfig strayTwinEnv st ''/a/main.js'')
          = Some [''/a/util.js'']
    | Throws err st \<Rightarrow> False
    | Diverges \<Rightarrow> False)"
  by code_simp

section \<open>Asking twice\<close>
























end
